theory Spec2Isabelle
  imports Main "HOL-Library.Word"
begin

unbundle bit_operations_syntax

section \<open>Common types\<close>

text \<open>
  Keys and values are opaque byte strings (class \<open>Bytes\<close>).  Every failure of the
  C++ code that a claim talks about is a value of \<open>error\<close>: a failed \<open>mt::check\<close>
  (which throws \<open>std::runtime_error\<close>), a failed \<open>assert\<close> / \<open>MT_ASSERT\<close>, a read
  outside a buffer, a block id the store does not know, a remainder by zero, and
  a failed read or write of a file.
\<close>

type_synonym byte = "8 word"
type_synonym bytes = "byte list"
type_synonym u32 = "32 word"

datatype error =
    CheckFailed
  | AssertionFailed
  | OutOfBounds
  | InvalidBlockId
  | DivisionByZero
  | IoError

section \<open>Version check (Version.cpp)\<close>

text \<open>
  \<^verbatim>\<open>void Version::checkCompatibility(int major, int minor) {
    mt::check(major == MAJOR && minor <= MINOR, "Version check failed. ...");
  }\<close>
  \<open>MAJOR\<close> and \<open>MINOR\<close> are constants of \<open>Version.hpp\<close>, which is not among the
  sources; they are parameters here.  The function only compares, so the
  integers are mathematical integers.
\<close>

definition checkCompatibility :: "int \<Rightarrow> int \<Rightarrow> int \<Rightarrow> int \<Rightarrow> error + unit" where
  "checkCompatibility MAJOR MINOR major minor =
     (if major = MAJOR \<and> minor \<le> MINOR then Inr () else Inl CheckFailed)"

section \<open>Partition dispatch (Map.hpp)\<close>

text \<open>
  \<^verbatim>\<open>internal::MapPartition* getPartition(const Bytes& key) {
    const auto hash = mt::fnv1aHash(key.data(), key.size());
    return partitions_[hash % partitions_.size()].get();
  }\<close>
  \<open>mt::fnv1aHash\<close> lives in the third-party header \<open>mt.hpp\<close>, which is not among
  the sources: the hash is the parameter \<open>fnv1aHash\<close>.  With no partition the
  remainder is a division by zero.
\<close>

definition getPartitionIndex :: "(bytes \<Rightarrow> nat) \<Rightarrow> 'p list \<Rightarrow> bytes \<Rightarrow> error + nat" where
  "getPartitionIndex fnv1aHash partitions key =
     (if partitions = [] then Inl DivisionByZero
      else Inr (fnv1aHash key mod length partitions))"

definition getPartition :: "(bytes \<Rightarrow> nat) \<Rightarrow> 'p list \<Rightarrow> bytes \<Rightarrow> error + 'p" where
  "getPartition fnv1aHash partitions key =
     (case getPartitionIndex fnv1aHash partitions key of
        Inl e \<Rightarrow> Inl e
      | Inr i \<Rightarrow> Inr (partitions ! i))"

text \<open>
  The single-key member templates of \<open>Map\<close> all have the shape
  \<^verbatim>\<open>return getPartition(key)->removeValue(key, predicate);\<close>
  (\<open>removeValue\<close>, \<open>removeValues\<close>, \<open>replaceValue\<close>, \<open>replaceValues\<close>, \<open>forEachValue\<close>).
  The partition is reached through a pointer and changed in place, so the
  model writes the changed partition back at the index it was taken from.
  The operation of \<open>MapPartition\<close> itself (\<open>MapPartition.hpp\<close> is not among the
  sources) is the parameter \<open>partition_op\<close>.
\<close>

definition onPartition ::
  "(bytes \<Rightarrow> nat) \<Rightarrow> (bytes \<Rightarrow> 'a \<Rightarrow> 'p \<Rightarrow> 'r \<times> 'p) \<Rightarrow> 'p list \<Rightarrow> bytes \<Rightarrow> 'a
     \<Rightarrow> error + ('r \<times> 'p list)" where
  "onPartition fnv1aHash partition_op partitions key arg =
     (case getPartitionIndex fnv1aHash partitions key of
        Inl e \<Rightarrow> Inl e
      | Inr i \<Rightarrow>
          (case partition_op key arg (partitions ! i) of
             (r, p') \<Rightarrow> Inr (r, partitions[i := p'])))"

text \<open>
  Modelled from the spec: the 32-bit FNV-1a hash the spec names for the
  dispatch (``\<open>partition_index = fnv1a_hash_32(key) mod num_partitions\<close>''); the
  repository's \<open>mt::fnv1aHash\<close> is missing.  Offset basis 2166136261, prime
  16777619, each byte is xor-ed in and the state multiplied, modulo \<open>2^32\<close>.
\<close>

definition fnv1aHash32 :: "bytes \<Rightarrow> nat" where
  "fnv1aHash32 key =
     unat (foldl (\<lambda>h b. (h XOR (ucast b :: u32)) * 16777619) (2166136261 :: u32) key)"

section \<open>Varint (modelled) and UintVector (UintVector.cpp)\<close>

text \<open>
  Modelled from the spec: \<open>Varint\<close> (\<open>Varint.hpp\<close>/\<open>Varint.cpp\<close> are not among the
  sources).  ``Varint encodes a 32-bit unsigned value in 1..5 bytes, little-endian,
  high bit = continuation'', and \<open>varint_max = 2^28 - 1\<close> is the bound
  \<open>Varint::Limits::N4_MAX_UINT\<close> that \<open>UintVector::add\<close> compares with.
  \<open>varint_bytes\<close> is the encoding; \<open>writeUint\<close> stores it at an offset of a buffer
  with \<open>room\<close> bytes left and returns the number of bytes written; \<open>readUint\<close>
  decodes from at most \<open>room\<close> (and at most 5) bytes and returns the number of
  bytes read with the value.  A write or read that does not fit is \<open>None\<close>.
\<close>

definition N4_MAX_UINT :: nat where
  "N4_MAX_UINT = 2 ^ 28 - 1"

definition byte_of :: "nat \<Rightarrow> byte" where
  "byte_of n = of_nat n"

fun varint_bytes :: "nat \<Rightarrow> byte list" where
  "varint_bytes n =
     (if n < 128 then [byte_of n]
      else byte_of (n mod 128 + 128) # varint_bytes (n div 128))"

declare varint_bytes.simps [simp del]

fun varint_decode :: "byte list \<Rightarrow> (nat \<times> nat) option" where
  "varint_decode [] = None"
| "varint_decode (b # bs) =
     (if unat b < 128 then Some (1, unat b)
      else (case varint_decode bs of
              None \<Rightarrow> None
            | Some (k, v) \<Rightarrow> Some (Suc k, unat b - 128 + 128 * v)))"

definition write_at :: "byte list \<Rightarrow> nat \<Rightarrow> byte list \<Rightarrow> byte list option" where
  "write_at buf off bs =
     (if off + length bs \<le> length buf
      then Some (take off buf @ bs @ drop (off + length bs) buf)
      else None)"

definition writeUint :: "nat \<Rightarrow> byte list \<Rightarrow> nat \<Rightarrow> nat \<Rightarrow> (nat \<times> byte list) option" where
  "writeUint v buf off room =
     (if length (varint_bytes v) \<le> room
      then (case write_at buf off (varint_bytes v) of
              None \<Rightarrow> None
            | Some buf' \<Rightarrow> Some (length (varint_bytes v), buf'))
      else None)"

definition readUint :: "byte list \<Rightarrow> nat \<Rightarrow> nat \<Rightarrow> (nat \<times> nat) option" where
  "readUint buf off room =
     (case varint_decode (take (min room 5) (drop off buf)) of
        None \<Rightarrow> None
      | Some (k, v) \<Rightarrow> Some (k, v mod 2 ^ 32))"

text \<open>
  The two file-local helpers of \<open>UintVector.cpp\<close>:
  \<^verbatim>\<open>std::size_t readUint32(const char* source, std::uint32_t* target) {
    std::memcpy(target, source, sizeof *target);  return sizeof *target; }
  std::size_t writeUint32(std::uint32_t source, char* target) {
    std::memcpy(target, &source, sizeof source);  return sizeof source; }\<close>
  The four bytes are the value's little-endian bytes (the spec's byte order).
\<close>

definition le32_bytes :: "nat \<Rightarrow> byte list" where
  "le32_bytes v =
     [byte_of (v mod 256), byte_of (v div 256 mod 256),
      byte_of (v div 65536 mod 256), byte_of (v div 16777216 mod 256)]"

definition readUint32 :: "byte list \<Rightarrow> nat \<Rightarrow> nat option" where
  "readUint32 buf off =
     (if off + 4 \<le> length buf
      then Some (unat (buf ! off) + 256 * unat (buf ! (off + 1))
                 + 65536 * unat (buf ! (off + 2)) + 16777216 * unat (buf ! (off + 3)))
      else None)"

definition writeUint32 :: "nat \<Rightarrow> byte list \<Rightarrow> nat \<Rightarrow> byte list option" where
  "writeUint32 v buf off = write_at buf off (le32_bytes v)"

text \<open>
  The vector: \<open>data_\<close> (a buffer of \<open>size_\<close> bytes), \<open>offset_\<close> (the end of the
  used part) and \<open>size_\<close>.  Values and offsets are \<open>uint32_t\<close>; they are natural
  numbers here and every subtraction that can wrap is written modulo \<open>2^32\<close>.
  \<open>empty()\<close>, \<open>current()\<close> and \<open>remaining()\<close> are inline members of the missing
  header: \<open>empty()\<close> is \<open>offset_ == 0\<close>, \<open>current()\<close> is \<open>data_ + offset_\<close> and
  \<open>remaining()\<close> is \<open>size_ - offset_\<close>.
\<close>

record UintVector =
  data :: "byte list"
  offset :: nat
  size :: nat

definition new_UintVector :: UintVector where
  "new_UintVector = \<lparr>data = [], offset = 0, size = 0\<rparr>"

definition empty :: "UintVector \<Rightarrow> bool" where
  "empty uv = (offset uv = 0)"

definition sub32 :: "nat \<Rightarrow> nat \<Rightarrow> nat" where
  "sub32 a b = (a + 2 ^ 32 - b mod 2 ^ 32) mod 2 ^ 32"

text \<open>
  \<^verbatim>\<open>void UintVector::allocateMoreIfFull() {
    const auto required_size = sizeof(std::uint32_t) * 2;
    if (size_ - offset_ < required_size) {
      const std::size_t new_end_offset = size_ * 1.5;
      const auto new_size = std::max(new_end_offset, required_size);
      std::unique_ptr<char[]> new_data(new char[new_size]);
      std::memcpy(new_data.get(), data_.get(), offset_);
      data_ = std::move(new_data);
      size_ = new_size;
    }
  }\<close>
  \<open>size_ * 1.5\<close> truncated to an integer is \<open>size_ * 3 div 2\<close>.  The bytes of the
  new buffer behind the copied ones are not initialised by the code; they are
  zero here.
\<close>

definition allocateMoreIfFull :: "UintVector \<Rightarrow> UintVector" where
  "allocateMoreIfFull uv =
     (let required_size = 8 in
      if sub32 (size uv) (offset uv) < required_size then
        (let new_end_offset = size uv * 3 div 2;
             new_size = max new_end_offset required_size
         in uv\<lparr>data := take (offset uv) (data uv)
                          @ replicate (new_size - offset uv) 0,
               size := new_size\<rparr>)
      else uv)"

text \<open>
  \<^verbatim>\<open>bool UintVector::add(std::uint32_t value) {
    allocateMoreIfFull();
    if (empty()) {
      if (value <= Varint::Limits::N4_MAX_UINT) {
        offset_ += Varint::writeUint(value, current(), size_);
        offset_ += writeUint32(value, current());
        return true;
      }
    } else {
      std::uint32_t prev_value;
      offset_ -= sizeof prev_value;
      readUint32(current(), &prev_value);
      MT_ASSERT_LT(prev_value, value);
      const std::uint32_t delta = value - prev_value;
      if (delta <= Varint::Limits::N4_MAX_UINT) {
        offset_ += Varint::writeUint(delta, current(), remaining());
        offset_ += writeUint32(value, current());
        return true;
      }
    }
    return false;
  }\<close>
  The result is the returned flag with the vector after the call.  A failed
  \<open>MT_ASSERT_LT\<close> is \<open>AssertionFailed\<close>; an access outside the buffer is
  \<open>OutOfBounds\<close>.
\<close>

definition add :: "nat \<Rightarrow> UintVector \<Rightarrow> error + (bool \<times> UintVector)" where
  "add v uv0 =
     (let uv = allocateMoreIfFull uv0 in
      if empty uv then
        (if v \<le> N4_MAX_UINT then
           (case writeUint v (data uv) (offset uv) (size uv) of
              None \<Rightarrow> Inl OutOfBounds
            | Some (n, d1) \<Rightarrow>
                (case writeUint32 v d1 (offset uv + n) of
                   None \<Rightarrow> Inl OutOfBounds
                 | Some d2 \<Rightarrow> Inr (True, uv\<lparr>data := d2, offset := offset uv + n + 4\<rparr>)))
         else Inr (False, uv))
      else
        (let off = sub32 (offset uv) 4 in
         case readUint32 (data uv) off of
           None \<Rightarrow> Inl OutOfBounds
         | Some prev_value \<Rightarrow>
             if \<not> prev_value < v then Inl AssertionFailed
             else
               (let delta = sub32 v prev_value in
                if delta \<le> N4_MAX_UINT then
                  (case writeUint delta (data uv) off (sub32 (size uv) off) of
                     None \<Rightarrow> Inl OutOfBounds
                   | Some (n, d1) \<Rightarrow>
                       (case writeUint32 v d1 (off + n) of
                          None \<Rightarrow> Inl OutOfBounds
                        | Some d2 \<Rightarrow> Inr (True, uv\<lparr>data := d2, offset := off + n + 4\<rparr>)))
                else Inr (False, uv\<lparr>offset := off\<rparr>))))"

text \<open>
  \<^verbatim>\<open>std::vector<std::uint32_t> UintVector::unpack() const {
    std::vector<std::uint32_t> values;
    if (!empty()) {
      std::uint32_t delta = 0, value = 0, nbytes = 0, offset = 0;
      std::uint32_t remaining = offset_ - sizeof value;
      while (remaining > 0) {
        nbytes = Varint::readUint(data_.get() + offset, remaining, &delta);
        offset += nbytes;
        remaining -= nbytes;
        values.push_back(value + delta);
        value = values.back();
      }
    }
    return values;
  }\<close>
  A read that leaves the buffer (or finds no complete varint) ends the loop
  with \<open>OutOfBounds\<close>.
\<close>

function unpack_loop ::
  "byte list \<Rightarrow> nat \<Rightarrow> nat \<Rightarrow> nat \<Rightarrow> nat list \<Rightarrow> error + nat list" where
  "unpack_loop buf off remaining val values =
     (if remaining > 0 then
        (case readUint buf off remaining of
           None \<Rightarrow> Inl OutOfBounds
         | Some (nbytes, delta) \<Rightarrow>
             unpack_loop buf (off + nbytes) (sub32 remaining nbytes)
               ((val + delta) mod 2 ^ 32) (values @ [(val + delta) mod 2 ^ 32]))
      else Inr values)"
  by pat_completeness auto

lemma varint_decode_Some:
  "varint_decode bs = Some (k, v) \<Longrightarrow> 0 < k \<and> k \<le> length bs"
  by (induction bs arbitrary: k v) (auto split: if_splits option.splits)

lemma readUint_Some:
  "readUint buf off room = Some (k, v) \<Longrightarrow> 0 < k \<and> k \<le> length buf - off \<and> k \<le> room"
  by (auto simp: readUint_def split: option.splits dest!: varint_decode_Some)

termination unpack_loop
proof (relation "measure (\<lambda>(buf, off, remaining, val, values). length buf - off)")
  show "wf (measure (\<lambda>(buf, off, remaining, val, values). length buf - off))"
    by simp
next
  fix buf :: "byte list" and off remaining val :: nat and vals :: "nat list"
    and x2 :: "nat \<times> nat" and nbytes delta :: nat
  assume "readUint buf off remaining = Some x2" and "(nbytes, delta) = x2"
  then have "0 < nbytes \<and> nbytes \<le> length buf - off"
    using readUint_Some [of buf off remaining nbytes delta] by simp
  then show "((buf, off + nbytes, sub32 remaining nbytes, (val + delta) mod 2 ^ 32,
               vals @ [(val + delta) mod 2 ^ 32]),
              (buf, off, remaining, val, vals))
             \<in> measure (\<lambda>(buf, off, remaining, val, values). length buf - off)"
    by auto
qed

declare unpack_loop.simps [simp del]

lemma replicate_numeral: "replicate (numeral k) x = x # replicate (pred_numeral k) x"
  by (simp add: numeral_eq_Suc)

definition unpack :: "UintVector \<Rightarrow> error + nat list" where
  "unpack uv =
     (if \<not> empty uv then unpack_loop (data uv) 0 (sub32 (offset uv) 4) 0 []
      else Inr [])"

section \<open>Block and Store (modelled)\<close>

text \<open>
  Modelled from the spec: \<open>Block\<close> (\<open>Block.hpp\<close> is not among the sources).  A block
  has a fixed \<open>block_size\<close>; its logical content is ``a tightly packed sequence of
  [varint length, 1 tombstone bit folded into length's low bit, value bytes]''.
  The model keeps the sequence of values with their tombstone bits; the bytes an
  entry occupies are its varint header and its value bytes, and \<open>next_offset\<close> is
  the number of bytes in use.  \<open>try_add(value)\<close> appends
  \<open>(varint(len*2 | tombstone_bit=0), value_bytes)\<close> ``if it fits; else return
  false''.
\<close>

record Block =
  block_size :: nat
  entries :: "(bytes \<times> bool) list"

definition entry_size :: "bytes \<Rightarrow> nat" where
  "entry_size v = length (varint_bytes (2 * length v)) + length v"

definition next_offset :: "Block \<Rightarrow> nat" where
  "next_offset b = sum_list (map (\<lambda>e. entry_size (fst e)) (entries b))"

definition TryAdd :: "bytes \<Rightarrow> Block \<Rightarrow> bool \<times> Block" where
  "TryAdd v b =
     (if next_offset b + entry_size v \<le> block_size b
      then (True, b\<lparr>entries := entries b @ [(v, False)]\<rparr>)
      else (False, b))"

definition live_values :: "Block \<Rightarrow> bytes list" where
  "live_values b = map fst (filter (\<lambda>e. \<not> snd e) (entries b))"

text \<open>
  Modelled from the spec: \<open>max_value_size(block_size)\<close>, the net capacity of a
  block (``a value larger than the net block capacity is rejected''): the
  largest value size whose header and bytes fit into an empty block.
\<close>

fun max_value_size_upto :: "nat \<Rightarrow> nat \<Rightarrow> nat" where
  "max_value_size_upto bs 0 = 0"
| "max_value_size_upto bs (Suc n) =
     (if length (varint_bytes (2 * Suc n)) + Suc n \<le> bs then Suc n
      else max_value_size_upto bs n)"

definition max_value_size :: "nat \<Rightarrow> nat" where
  "max_value_size bs = max_value_size_upto bs bs"

text \<open>
  Modelled from the spec: \<open>Store\<close> (\<open>Store.hpp\<close>/\<open>DataFile.hpp\<close> are not among the
  sources), ``a single file of fixed-size slots''.  \<open>append(block)\<close> ``returns
  the assigned ID (\<open>num_blocks_on_disk + buffer_index\<close>)'', that is the number of
  blocks appended before; \<open>read(id)\<close> and \<open>replace(id, block)\<close> address a block by
  its id and report ``invalid block id'' beyond the blocks appended so far.
  The write buffer and the file are one sequence of blocks here.  Ids are
  32-bit in the spec; the stores considered below hold far fewer than \<open>2^32\<close>
  blocks.
\<close>

record Store =
  store_block_size :: nat
  blocks :: "Block list"

definition Store_append :: "Block \<Rightarrow> Store \<Rightarrow> nat \<times> Store" where
  "Store_append b s = (length (blocks s), s\<lparr>blocks := blocks s @ [b]\<rparr>)"

definition Store_read :: "nat \<Rightarrow> Store \<Rightarrow> error + Block" where
  "Store_read bid s = (if bid < length (blocks s) then Inr (blocks s ! bid) else Inl InvalidBlockId)"

definition Store_replace :: "nat \<Rightarrow> Block \<Rightarrow> Store \<Rightarrow> error + Store" where
  "Store_replace bid b s =
     (if bid < length (blocks s) then Inr (s\<lparr>blocks := (blocks s)[bid := b]\<rparr>)
      else Inl InvalidBlockId)"

section \<open>List (List.cpp)\<close>

text \<open>
  \<open>List::Head\<close> holds the two 32-bit counters and the block ids; a \<open>List\<close> is its
  head and the tail block \<open>block_\<close>, which is absent (\<open>!block_.has_data()\<close>) until
  the first \<open>Add\<close> and after a \<open>Flush\<close>.
\<close>

record Head =
  num_values_total :: u32
  num_values_deleted :: u32
  block_ids :: UintVector

record List_t =
  head :: Head
  block :: "Block option"

definition new_List :: List_t where
  "new_List = \<lparr>head = \<lparr>num_values_total = 0, num_values_deleted = 0,
                          block_ids = new_UintVector\<rparr>,
               block = None\<rparr>"

text \<open>
  The callbacks a \<open>Shard\<close> hands to its lists (\<open>Shard::initCallbacks\<close>):
  \<^verbatim>\<open>callbacks_.new_block = [this]() {
    const auto block_size = store_.block_size();
    return Block(arena_.allocate(block_size), block_size); };
  callbacks_.commit_block = [this](const Block& block) { return store_.append(block); };\<close>
  \<open>List::Add\<close> zeroes the new block (\<open>std::memset\<close>), so it holds no entry.
\<close>

definition allocate_block :: "Store \<Rightarrow> Block" where
  "allocate_block s = \<lparr>block_size = store_block_size s, entries = []\<rparr>"

definition commit_block :: "Block \<Rightarrow> Store \<Rightarrow> nat \<times> Store" where
  "commit_block b s = Store_append b s"

text \<open>
  \<open>head_.block_ids.Add(id)\<close>: the returned flag is not looked at by \<open>List::Add\<close>
  and \<open>List::Flush\<close>; a failed assertion inside stops the call.
\<close>

definition block_ids_Add :: "nat \<Rightarrow> List_t \<Rightarrow> error + List_t" where
  "block_ids_Add bid l =
     (case add bid (block_ids (head l)) of
        Inl e \<Rightarrow> Inl e
      | Inr (ok, uv) \<Rightarrow> Inr (l\<lparr>head := (head l)\<lparr>block_ids := uv\<rparr>\<rparr>))"

text \<open>
  \<^verbatim>\<open>void List::Add(const Bytes& value,
                 const Callbacks::AllocateBlock& allocate_block,
                 const Callbacks::CommitBlock& commit_block) {
    if (!block_.has_data()) {
      block_ = allocate_block();
      std::memset(block_.data(), 0, block_.size());
    }
    auto ok = block_.TryAdd(value);
    if (!ok) {
      head_.block_ids.Add(commit_block(std::move(block_)));
      block_ = allocate_block();
      std::memset(block_.data(), 0, block_.size());
      ok = block_.TryAdd(value);
      assert(ok);
    }
    ++head_.num_values_total;
  }\<close>
  The result is the failure, if any, with the list and the store as the call
  leaves them: a failed \<open>assert\<close> stops the call where it stands.
\<close>

definition incr_total :: "List_t \<Rightarrow> List_t" where
  "incr_total l = l\<lparr>head := (head l)\<lparr>num_values_total := num_values_total (head l) + 1\<rparr>\<rparr>"

definition List_Add :: "bytes \<Rightarrow> List_t \<Rightarrow> Store \<Rightarrow> error option \<times> List_t \<times> Store" where
  "List_Add v l s =
     (let b0 = (case block l of None \<Rightarrow> allocate_block s | Some b \<Rightarrow> b);
          l0 = l\<lparr>block := Some b0\<rparr>
      in case TryAdd v b0 of
           (True, b1) \<Rightarrow> (None, incr_total (l0\<lparr>block := Some b1\<rparr>), s)
         | (False, _) \<Rightarrow>
             (case commit_block b0 s of
                (bid, s1) \<Rightarrow>
                  (case block_ids_Add bid l0 of
                     Inl e \<Rightarrow> (Some e, l0, s1)
                   | Inr l1 \<Rightarrow>
                       (let b2 = allocate_block s1;
                            l2 = l1\<lparr>block := Some b2\<rparr>
                        in case TryAdd v b2 of
                             (True, b3) \<Rightarrow> (None, incr_total (l2\<lparr>block := Some b3\<rparr>), s1)
                           | (False, _) \<Rightarrow> (Some AssertionFailed, l2, s1)))))"

text \<open>
  \<^verbatim>\<open>void List::Flush(const Callbacks::CommitBlock& commit_block) {
    if (block_.has_data()) {
      head_.block_ids.Add(commit_block(std::move(block_)));
      block_ = Block();
    }
  }\<close>
\<close>

definition List_Flush :: "List_t \<Rightarrow> Store \<Rightarrow> error option \<times> List_t \<times> Store" where
  "List_Flush l s =
     (case block l of
        None \<Rightarrow> (None, l, s)
      | Some b \<Rightarrow>
          (case commit_block b s of
             (bid, s1) \<Rightarrow>
               (case block_ids_Add bid l of
                  Inl e \<Rightarrow> (Some e, l, s1)
                | Inr l1 \<Rightarrow> (None, l1\<lparr>block := None\<rparr>, s1))))"

text \<open>
  Modelled from the spec: the iteration of a list (the members of \<open>List::Iter\<close>
  that walk the blocks are in \<open>List.hpp\<close>, which is not among the sources; its
  constructors, in \<open>List.cpp\<close>, take \<open>block_ids_(head_->block_ids.Unpack())\<close>).
  An iterator ``produces values in insertion order, skipping tombstoned ones.
  Yields first from the committed ID sequence (reading each block via
  \<open>store.read\<close>), then from the in-memory tail.''
\<close>

fun read_blocks :: "Store \<Rightarrow> nat list \<Rightarrow> error + Block list" where
  "read_blocks s [] = Inr []"
| "read_blocks s (bid # ids) =
     (case Store_read bid s of
        Inl e \<Rightarrow> Inl e
      | Inr b \<Rightarrow> (case read_blocks s ids of Inl e \<Rightarrow> Inl e | Inr bs \<Rightarrow> Inr (b # bs)))"

definition tail_values :: "List_t \<Rightarrow> bytes list" where
  "tail_values l = (case block l of None \<Rightarrow> [] | Some b \<Rightarrow> live_values b)"

definition iterate :: "List_t \<Rightarrow> Store \<Rightarrow> error + bytes list" where
  "iterate l s =
     (case unpack (block_ids (head l)) of
        Inl e \<Rightarrow> Inl e
      | Inr ids \<Rightarrow>
          (case read_blocks s ids of
             Inl e \<Rightarrow> Inl e
           | Inr bs \<Rightarrow> Inr (concat (map live_values bs) @ tail_values l)))"

section \<open>Shard (Shard.cpp)\<close>

text \<open>
  A shard is its key table and its store.  \<open>Table::getUniqueOrCreate\<close>
  (\<open>Table.cpp\<close>) rejects a key longer than \<open>max_key_size()\<close> with a failed
  \<open>check\<close> and inserts a new empty list for a key it does not hold;
  \<open>max_key_size()\<close> is declared in the missing \<open>Table.hpp\<close> and is the spec's
  \<open>max_key_size = 65535\<close>.  The locks the handles carry are not part of this
  sequential model.
\<close>

record Shard =
  table :: "bytes \<rightharpoonup> List_t"
  store :: Store

definition max_key_size :: nat where
  "max_key_size = 65535"

definition getUniqueOrCreate ::
  "bytes \<Rightarrow> (bytes \<rightharpoonup> List_t) \<Rightarrow> error + (List_t \<times> (bytes \<rightharpoonup> List_t))" where
  "getUniqueOrCreate key t =
     (if length key \<le> max_key_size then
        (case t key of
           None \<Rightarrow> Inr (new_List, t(key \<mapsto> new_List))
         | Some l \<Rightarrow> Inr (l, t))
      else Inl CheckFailed)"

text \<open>
  \<^verbatim>\<open>void Shard::put(const Bytes& key, const Bytes& value) {
    table_.getUniqueOrCreate(key).list()->add(value, callbacks_.new_block,
                                              callbacks_.commit_block);
  }
  Shard::ListIterator Shard::get(const Bytes& key) const {
    return ListIterator(table_.getShared(key), callbacks_.request_blocks);
  }\<close>
  An iterator for a key the table does not hold yields nothing.
\<close>

definition Shard_put :: "bytes \<Rightarrow> bytes \<Rightarrow> Shard \<Rightarrow> error option \<times> Shard" where
  "Shard_put key v sh =
     (case getUniqueOrCreate key (table sh) of
        Inl e \<Rightarrow> (Some e, sh)
      | Inr (l, t) \<Rightarrow>
          (case List_Add v l (store sh) of
             (e, l', s') \<Rightarrow> (e, \<lparr>table = t(key \<mapsto> l'), store = s'\<rparr>)))"

definition Shard_get :: "bytes \<Rightarrow> Shard \<Rightarrow> error + bytes list" where
  "Shard_get key sh =
     (case table sh key of
        None \<Rightarrow> Inr []
      | Some l \<Rightarrow> iterate l (store sh))"

text \<open>
  \<open>Shard::remove\<close> and \<open>Shard::replace\<close> walk a mutable iterator over the list:
  \<^verbatim>\<open>for (iter.seekToFirst(); iter.hasValue(); iter.next()) {
    if (predicate(iter.getValue())) {
      iter.markAsDeleted();  ++num_deleted;  iter.next();  break;
    }
  }
  if (apply_to_all) {
    for (; iter.hasValue(); iter.next()) {
      if (predicate(iter.getValue())) { iter.markAsDeleted();  ++num_deleted; }
    }
  }\<close>
  The iterator visits the values that are not tombstoned, in order; the first
  loop stops after the first value it marks and the second loop, entered only
  with \<open>apply_to_all\<close>, marks every further selected value.  \<open>mark_entries\<close> is
  this walk over the entries of one block: \<open>found\<close> says whether the first loop
  has already marked a value, and the result is the entries, the new \<open>found\<close> and
  the marked values in order.
\<close>

fun mark_entries ::
  "(bytes \<Rightarrow> bool) \<Rightarrow> bool \<Rightarrow> bool \<Rightarrow> (bytes \<times> bool) list
     \<Rightarrow> (bytes \<times> bool) list \<times> bool \<times> bytes list" where
  "mark_entries sel apply_to_all found [] = ([], found, [])"
| "mark_entries sel apply_to_all found ((v, d) # es) =
     (if \<not> d \<and> (apply_to_all \<or> \<not> found) \<and> sel v
      then (case mark_entries sel apply_to_all True es of
              (es', found', marked) \<Rightarrow> ((v, True) # es', found', v # marked))
      else (case mark_entries sel apply_to_all found es of
              (es', found', marked) \<Rightarrow> ((v, d) # es', found', marked)))"

text \<open>
  \<open>markAsDeleted\<close> is \<open>List::Iter<false>::Delete\<close> (\<open>List.cpp\<close>), which sets the
  tombstone bit of the current value and counts it:
  \<^verbatim>\<open>assert(Valid());
  stats_.block_has_changed |= !block_iter_.deleted();
  block_iter_.set_deleted();
  ++head_->num_values_deleted;\<close>
  The iterator stands on a value that is not tombstoned whenever the loops
  above call it, so the assertion holds.  A committed block that has changed
  is written back under its id (\<open>UpdateCurrentBlock\<close>, \<open>callbacks_.update_block\<close>,
  which for a shard is \<open>store_.write(block.id, block)\<close>, the spec's \<open>replace\<close>);
  the tail block ``is in-memory and therefore updated in-place''.
\<close>

fun mark_blocks ::
  "(bytes \<Rightarrow> bool) \<Rightarrow> bool \<Rightarrow> bool \<Rightarrow> nat list \<Rightarrow> Store
     \<Rightarrow> error + (Store \<times> bool \<times> bytes list)" where
  "mark_blocks sel apply_to_all found [] s = Inr (s, found, [])"
| "mark_blocks sel apply_to_all found (bid # ids) s =
     (case Store_read bid s of
        Inl e \<Rightarrow> Inl e
      | Inr b \<Rightarrow>
          (case mark_entries sel apply_to_all found (entries b) of
             (es', found', marked) \<Rightarrow>
               (case (if es' \<noteq> entries b then Store_replace bid (b\<lparr>entries := es'\<rparr>) s
                      else Inr s) of
                  Inl e \<Rightarrow> Inl e
                | Inr s' \<Rightarrow>
                    (case mark_blocks sel apply_to_all found' ids s' of
                       Inl e \<Rightarrow> Inl e
                     | Inr (s'', found'', marked') \<Rightarrow> Inr (s'', found'', marked @ marked')))))"

definition add_deleted :: "nat \<Rightarrow> List_t \<Rightarrow> List_t" where
  "add_deleted n l =
     l\<lparr>head := (head l)\<lparr>num_values_deleted := num_values_deleted (head l) + of_nat n\<rparr>\<rparr>"

definition List_mark ::
  "(bytes \<Rightarrow> bool) \<Rightarrow> bool \<Rightarrow> List_t \<Rightarrow> Store \<Rightarrow> error + (bytes list \<times> List_t \<times> Store)" where
  "List_mark sel apply_to_all l s =
     (case unpack (block_ids (head l)) of
        Inl e \<Rightarrow> Inl e
      | Inr ids \<Rightarrow>
          (case mark_blocks sel apply_to_all False ids s of
             Inl e \<Rightarrow> Inl e
           | Inr (s', found, marked) \<Rightarrow>
               (case block l of
                  None \<Rightarrow> Inr (marked, add_deleted (length marked) l, s')
                | Some b \<Rightarrow>
                    (case mark_entries sel apply_to_all found (entries b) of
                       (es', found', marked') \<Rightarrow>
                         Inr (marked @ marked',
                              add_deleted (length (marked @ marked'))
                                (l\<lparr>block := Some (b\<lparr>entries := es'\<rparr>)\<rparr>),
                              s')))))"

text \<open>
  \<^verbatim>\<open>std::size_t Shard::remove(const Bytes& key, BytesPredicate predicate,
                            bool apply_to_all) {
    std::size_t num_deleted = 0;
    auto iter = getMutable(key);
    ... the two loops above ...
    return num_deleted;
  }\<close>
  \<open>getMutable\<close> of a key the table does not hold gives an iterator without values.
\<close>

definition Shard_remove ::
  "bytes \<Rightarrow> (bytes \<Rightarrow> bool) \<Rightarrow> bool \<Rightarrow> Shard \<Rightarrow> error + (nat \<times> Shard)" where
  "Shard_remove key predicate apply_to_all sh =
     (case table sh key of
        None \<Rightarrow> Inr (0, sh)
      | Some l \<Rightarrow>
          (case List_mark predicate apply_to_all l (store sh) of
             Inl e \<Rightarrow> Inl e
           | Inr (marked, l', s') \<Rightarrow>
               Inr (length marked, \<lparr>table = (table sh)(key \<mapsto> l'), store = s'\<rparr>)))"

text \<open>
  \<^verbatim>\<open>std::size_t Shard::replace(const Bytes& key, BytesFunction function,
                             bool apply_to_all) {
    std::vector<std::string> updated_values;
    auto iter = getMutable(key);
    for (iter.seekToFirst(); iter.hasValue(); iter.next()) {
      const auto updated_value = function(iter.getValue());
      if (!updated_value.empty()) {
        updated_values.emplace_back(updated_value);
        iter.markAsDeleted();  iter.next();  break;
      }
    }
    if (apply_to_all) {
      for (; iter.hasValue(); iter.next()) {
        const auto updated_value = function(iter.getValue());
        if (!updated_value.empty()) {
          updated_values.emplace_back(updated_value);
          iter.markAsDeleted();
        }
      }
    }
    if (!updated_values.empty()) {
      auto list_lock = iter.releaseListLock();
      for (const auto& value : updated_values) {
        list_lock.list()->add(value, callbacks_.new_block, callbacks_.commit_block);
      }
    }
    return updated_values.size();
  }\<close>
  A value is selected when \<open>function\<close> returns a non-empty string for it.
\<close>

fun add_all :: "bytes list \<Rightarrow> List_t \<Rightarrow> Store \<Rightarrow> error option \<times> List_t \<times> Store" where
  "add_all [] l s = (None, l, s)"
| "add_all (v # vs) l s =
     (case List_Add v l s of
        (None, l', s') \<Rightarrow> add_all vs l' s'
      | (Some e, l', s') \<Rightarrow> (Some e, l', s'))"

definition Shard_replace ::
  "bytes \<Rightarrow> (bytes \<Rightarrow> bytes) \<Rightarrow> bool \<Rightarrow> Shard \<Rightarrow> error + (nat \<times> Shard)" where
  "Shard_replace key function apply_to_all sh =
     (case table sh key of
        None \<Rightarrow> Inr (0, sh)
      | Some l \<Rightarrow>
          (case List_mark (\<lambda>v. function v \<noteq> []) apply_to_all l (store sh) of
             Inl e \<Rightarrow> Inl e
           | Inr (marked, l1, s1) \<Rightarrow>
               (case add_all (map function marked) l1 s1 of
                  (Some e, l2, s2) \<Rightarrow> Inl e
                | (None, l2, s2) \<Rightarrow>
                    Inr (length marked, \<lparr>table = (table sh)(key \<mapsto> l2), store = s2\<rparr>))))"

section \<open>Table (Table.cpp)\<close>

text \<open>
  The key table of \<open>Table.cpp\<close> maps each key to its list; \<open>Table::close\<close> walks
  \<open>map_\<close>, so the table is the sequence of its entries in the order of that walk.
  Each list carries its lock (\<open>List::mutex_\<close>): \<open>List::TryLockUnique\<close> (\<open>List.cpp\<close>)
  is \<open>mutex_->try_lock()\<close>, which succeeds exactly when no thread holds the lock,
  shared or unique.  The locks held by other threads do not change while
  \<open>close\<close> runs in this sequential model.  The operations of a list that
  \<open>close\<close> calls are parameters: \<open>is_empty\<close> (\<open>List::empty()\<close>, declared in the
  missing \<open>List.hpp\<close>), \<open>flush\<close> (with the store it commits to) and \<open>chead\<close>.
\<close>

datatype lock_state = Unlocked | LockedShared nat | LockedUnique

definition tryLockUnique :: "lock_state \<Rightarrow> bool" where
  "tryLockUnique lk = (lk = Unlocked)"

record 'l Table =
  table_path :: string
  table_map :: "(bytes \<times> 'l \<times> lock_state) list"

text \<open>
  A keys file is the sequence of items written to it: the count
  (\<open>System::write(file, &num_keys, sizeof num_keys)\<close>) and one record per
  \<open>writeEntryToFile\<close> (key size, key bytes and list head).  The file system maps
  a path to the content of the file there.

  Modelled from the spec: \<open>System::write\<close> (\<open>System.hpp\<close> is not among the sources).
  A write that fails is an \<open>io_error\<close> that ``aborts the operation''.  \<open>budget\<close> is
  the number of writes that succeed before one fails, \<open>None\<close> when none fails.
\<close>

datatype 'h item = Count nat | Record bytes 'h

type_synonym 'h files = "string \<rightharpoonup> 'h item list"

definition System_write ::
  "'h item \<Rightarrow> 'h item list \<Rightarrow> nat option \<Rightarrow> error + ('h item list \<times> nat option)" where
  "System_write x file budget =
     (case budget of
        None \<Rightarrow> Inr (file @ [x], None)
      | Some 0 \<Rightarrow> Inl IoError
      | Some (Suc n) \<Rightarrow> Inr (file @ [x], Some n))"

text \<open>
  \<^verbatim>\<open>void writeEntryToFile(const Entry& entry, std::FILE* file) {
    assert(entry.first.size() <= std::numeric_limits<std::uint16_t>::max());
    const std::uint16_t key_size = entry.first.size();
    System::write(file, &key_size, sizeof key_size);
    System::write(file, entry.first.data(), key_size);
    entry.second.WriteToFile(file);
  }\<close>
  The three writes of one record are one write here.
\<close>

definition writeEntryToFile ::
  "bytes \<times> 'h \<Rightarrow> 'h item list \<Rightarrow> nat option \<Rightarrow> error + ('h item list \<times> nat option)" where
  "writeEntryToFile entry file budget =
     (if length (fst entry) \<le> 65535
      then System_write (Record (fst entry) (snd entry)) file budget
      else Inl AssertionFailed)"

text \<open>
  The loop of \<open>Table::close\<close>:
  \<^verbatim>\<open>std::uint32_t num_keys_written = 0;
  for (const auto& entry : map_) {
    const auto list = entry.second.get();
    if (list->tryLockUnique()) {
      if (!list->empty()) {
        list->flush(commit_block_);
        writeEntryToFile(Entry(entry.first, list->chead()), file.get());
        ++num_keys_written;
      }
      list->unlockUnique();
    } else {
      System::log(__PRETTY_FUNCTION__)
          << "List is still locked and could not be flushed. Key was " ...
    }
  }\<close>
  The state of the loop is the entries already visited (with their lists as
  \<open>flush\<close> left them), the file, \<open>num_keys_written\<close>, the store and the budget of
  writes; the result adds the failure that stopped the loop, if any.  A failure
  of \<open>flush\<close> or of \<open>writeEntryToFile\<close> leaves the loop before
  \<open>list->unlockUnique()\<close>: the list at which the loop stopped stays locked.
\<close>

fun close_entries ::
  "('l \<Rightarrow> bool) \<Rightarrow> ('l \<Rightarrow> 's \<Rightarrow> error option \<times> 'l \<times> 's) \<Rightarrow> ('l \<Rightarrow> 'h)
     \<Rightarrow> (bytes \<times> 'l \<times> lock_state) list
     \<Rightarrow> (bytes \<times> 'l \<times> lock_state) list \<times> 'h item list \<times> nat \<times> 's \<times> nat option
     \<Rightarrow> error option \<times> (bytes \<times> 'l \<times> lock_state) list \<times> 'h item list \<times> nat \<times> 's
         \<times> nat option" where
  "close_entries is_empty flush chead [] (done, file, written, st, budget) =
     (None, done, file, written, st, budget)"
| "close_entries is_empty flush chead ((key, lst, lk) # es) (done, file, written, st, budget) =
     (if tryLockUnique lk then
        (if \<not> is_empty lst then
           (case flush lst st of
              (Some e, lst', st') \<Rightarrow>
                (Some e, done @ (key, lst', LockedUnique) # es, file, written, st', budget)
            | (None, lst', st') \<Rightarrow>
                (case writeEntryToFile (key, chead lst') file budget of
                   Inl e \<Rightarrow>
                     (Some e, done @ (key, lst', LockedUnique) # es, file, written, st', budget)
                 | Inr (file', budget') \<Rightarrow>
                     close_entries is_empty flush chead es
                       (done @ [(key, lst', lk)], file', (written + 1) mod 2 ^ 32, st', budget')))
         else close_entries is_empty flush chead es
                (done @ [(key, lst, lk)], file, written, st, budget))
      else close_entries is_empty flush chead es
             (done @ [(key, lst, lk)], file, written, st, budget))"

text \<open>
  \<^verbatim>\<open>void Table::close() {
    if (path_.empty()) return;
    const boost::shared_lock<boost::shared_mutex> lock(mutex_);
    const auto backup_path = path_.string() + ".old";
    auto status = std::rename(path_.c_str(), backup_path.c_str());
    assert(status == 0);
    const AutoCloseFile file(std::fopen(path_.c_str(), "w"));
    assert(file.get());
    ...
    const std::uint32_t num_keys = map_.size();
    System::write(file.get(), &num_keys, sizeof num_keys);
    ... the loop ...
    if (num_keys_written != map_.size()) {
      std::rewind(file.get());
      System::write(file.get(), &num_keys_written, sizeof num_keys_written);
    }
    status = std::remove(backup_path.c_str());
    assert(status == 0);
    arena_.reset();
    path_.clear();
    map_.clear();
  }\<close>
  The result is the failure, if any, with the table, the files and the store
  as the call leaves them.
\<close>

definition Table_close ::
  "('l \<Rightarrow> bool) \<Rightarrow> ('l \<Rightarrow> 's \<Rightarrow> error option \<times> 'l \<times> 's) \<Rightarrow> ('l \<Rightarrow> 'h) \<Rightarrow> nat option
     \<Rightarrow> 'l Table \<Rightarrow> 'h files \<Rightarrow> 's \<Rightarrow> error option \<times> 'l Table \<times> 'h files \<times> 's" where
  "Table_close is_empty flush chead budget t fs st =
     (if table_path t = [] then (None, t, fs, st)
      else
        (let backup_path = table_path t @ ''.old'' in
         case fs (table_path t) of
           None \<Rightarrow> (Some AssertionFailed, t, fs, st)
         | Some original \<Rightarrow>
             (let fs1 = (fs(backup_path \<mapsto> original))(table_path t := None);
                  fs2 = fs1(table_path t \<mapsto> []);
                  num_keys = length (table_map t) mod 2 ^ 32
              in case System_write (Count num_keys) [] budget of
                   Inl e \<Rightarrow> (Some e, t, fs2, st)
                 | Inr (file0, budget0) \<Rightarrow>
                     (case close_entries is_empty flush chead (table_map t)
                             ([], file0, 0, st, budget0) of
                        (Some e, done, file1, written, st1, budget1) \<Rightarrow>
                          (Some e, t\<lparr>table_map := done\<rparr>, fs2(table_path t \<mapsto> file1), st1)
                      | (None, done, file1, written, st1, budget1) \<Rightarrow>
                          (case (if written \<noteq> length (table_map t)
                                 then (case budget1 of
                                         Some 0 \<Rightarrow> Inl IoError
                                       | _ \<Rightarrow> Inr (file1[0 := Count written]))
                                 else Inr file1) of
                             Inl e \<Rightarrow>
                               (Some e, t\<lparr>table_map := done\<rparr>, fs2(table_path t \<mapsto> file1), st1)
                           | Inr file2 \<Rightarrow>
                               (None, \<lparr>table_path = [], table_map = []\<rparr>,
                                (fs2(table_path t \<mapsto> file2))(backup_path := None), st1))))))"

text \<open>
  \<open>Table::open\<close> on an existing keys file:
  \<^verbatim>\<open>std::uint32_t num_keys;
  System::read(stream.get(), &num_keys, sizeof num_keys);
  for (std::size_t i = 0; i != num_keys; ++i) {
    const auto entry = readEntryFromFile(stream.get(), &arena_);
    map_.emplace(entry.first, std::unique_ptr<List>(new List(entry.second)));
  }\<close>
  \<open>emplace\<close> keeps the first list of a key that occurs twice.  A file that does
  not hold the count and then that many records is a failed read.  The list
  built from a head (\<open>List::List(const Head&)\<close>) is the parameter \<open>list_of_head\<close>;
  the branches of \<open>open\<close> for a missing file are not modelled.
\<close>

fun read_entries :: "nat \<Rightarrow> 'h item list \<Rightarrow> error + (bytes \<times> 'h) list" where
  "read_entries 0 items = Inr []"
| "read_entries (Suc n) [] = Inl IoError"
| "read_entries (Suc n) (Count c # items) = Inl IoError"
| "read_entries (Suc n) (Record k h # items) =
     (case read_entries n items of Inl e \<Rightarrow> Inl e | Inr es \<Rightarrow> Inr ((k, h) # es))"

fun emplace_all ::
  "('h \<Rightarrow> 'l) \<Rightarrow> (bytes \<times> 'h) list \<Rightarrow> (bytes \<times> 'l \<times> lock_state) list
     \<Rightarrow> (bytes \<times> 'l \<times> lock_state) list" where
  "emplace_all list_of_head [] m = m"
| "emplace_all list_of_head ((k, h) # es) m =
     emplace_all list_of_head es
       (if k \<in> fst ` set m then m else m @ [(k, list_of_head h, Unlocked)])"

definition Table_open :: "('h \<Rightarrow> 'l) \<Rightarrow> string \<Rightarrow> 'h files \<Rightarrow> error + 'l Table" where
  "Table_open list_of_head file fs =
     (case fs file of
        None \<Rightarrow> Inl CheckFailed
      | Some [] \<Rightarrow> Inl IoError
      | Some (Record k h # items) \<Rightarrow> Inl IoError
      | Some (Count num_keys # items) \<Rightarrow>
          (case read_entries num_keys items of
             Inl e \<Rightarrow> Inl e
           | Inr es \<Rightarrow> Inr \<lparr>table_path = file, table_map = emplace_all list_of_head es []\<rparr>))"

section \<open>Sequences of calls\<close>

text \<open>
  A sequence of \<open>put\<close> calls on a shard stops at the first call that fails.
\<close>

fun put_all :: "(bytes \<times> bytes) list \<Rightarrow> Shard \<Rightarrow> error option \<times> Shard" where
  "put_all [] sh = (None, sh)"
| "put_all ((k, v) # kvs) sh =
     (case Shard_put k v sh of
        (None, sh') \<Rightarrow> put_all kvs sh'
      | (Some e, sh') \<Rightarrow> (Some e, sh'))"

text \<open>
  The operations that change one list, interleaved in any order: an append
  (\<open>List::Add\<close>), a removal of the first or of all values that satisfy a
  predicate (the loops of \<open>Shard::remove\<close>) and a flush (\<open>List::Flush\<close>).  A state
  is a list with the store of its shard; a history is run from the left and
  stops at the first operation that fails.
\<close>

datatype list_op =
    Append bytes
  | Remove "bytes \<Rightarrow> bool" bool
  | Flush

fun step :: "list_op \<Rightarrow> List_t \<times> Store \<Rightarrow> error + (List_t \<times> Store)" where
  "step (Append v) (l, s) =
     (case List_Add v l s of
        (None, l', s') \<Rightarrow> Inr (l', s')
      | (Some e, l', s') \<Rightarrow> Inl e)"
| "step (Remove predicate apply_to_all) (l, s) =
     (case List_mark predicate apply_to_all l s of
        Inl e \<Rightarrow> Inl e
      | Inr (marked, l', s') \<Rightarrow> Inr (l', s'))"
| "step Flush (l, s) =
     (case List_Flush l s of
        (None, l', s') \<Rightarrow> Inr (l', s')
      | (Some e, l', s') \<Rightarrow> Inl e)"

fun run :: "list_op list \<Rightarrow> List_t \<times> Store \<Rightarrow> error + (List_t \<times> Store)" where
  "run [] st = Inr st"
| "run (x # xs) st = (case step x st of Inl e \<Rightarrow> Inl e | Inr st' \<Rightarrow> run xs st')"

section \<open>Properties of the block-id vector\<close>

text \<open>
  \<open>uv_holds uv ids\<close> says that the buffer of \<open>uv\<close> holds the strictly increasing
  ids \<open>ids\<close>, all below \<open>2^28\<close>: the varints of the first id and of the successive
  differences, followed by the last id in four bytes, end at \<open>offset_\<close>.
\<close>

lemma unat_byte_of: "n < 256 \<Longrightarrow> unat (byte_of n) = n"
  by (simp add: byte_of_def unat_of_nat)

lemma length_varint_bytes_pos: "0 < length (varint_bytes n)"
  by (subst varint_bytes.simps) simp

lemma length_varint_bytes_le4: "n < 2 ^ 28 \<Longrightarrow> length (varint_bytes n) \<le> 4"
  apply (subst varint_bytes.simps, simp)
  apply (subst varint_bytes.simps, simp)
  apply (subst varint_bytes.simps, simp)
  apply (subst varint_bytes.simps, simp add: div_less_iff_less_mult)
  done

lemma varint_decode_bytes:
  "varint_decode (varint_bytes n @ r) = Some (length (varint_bytes n), n)"
proof (induction n rule: varint_bytes.induct)
  case (1 n)
  show ?case
  proof (cases "n < 128")
    case True
    then show ?thesis
      by (subst (1 2) varint_bytes.simps) (simp add: unat_byte_of)
  next
    case False
    have u: "unat (byte_of (n mod 128 + 128)) = n mod 128 + 128"
      by (rule unat_byte_of) (simp add: less_le_trans [OF mod_less_divisor])
    from False 1 show ?thesis
      by (subst (1 2) varint_bytes.simps) (simp add: u)
  qed
qed

lemma le32_sum:
  assumes "v < 2 ^ 32"
  shows "v mod 256 + 256 * (v div 256 mod 256) + 65536 * (v div 65536 mod 256)
        + 16777216 * (v div 16777216 mod 256) = (v::nat)"
proof -
  define a where "a = v div 256"
  define b where "b = a div 256"
  define c where "c = b div 256"
  have b': "v div 65536 = b" unfolding b_def a_def by (simp add: div_mult2_eq [symmetric])
  have c': "v div 16777216 = c" unfolding c_def b_def a_def by (simp add: div_mult2_eq [symmetric])
  have "c < 256" using assms unfolding c' [symmetric] by (simp add: div_less_iff_less_mult)
  then have c: "c mod 256 = c" by simp
  have 1: "v = v mod 256 + 256 * a" unfolding a_def by simp
  have 2: "a = a mod 256 + 256 * b" unfolding b_def by simp
  have 3: "b = b mod 256 + 256 * c" unfolding c_def by simp
  have "v mod 256 + 256 * (a mod 256) + 65536 * (b mod 256) + 16777216 * c = v"
    using 1 2 3 by linarith
  then show ?thesis unfolding b' c' c a_def [symmetric] .
qed

lemma length_le32_bytes [simp]: "length (le32_bytes v) = 4"
  by (simp add: le32_bytes_def)

lemma readUint32_le32:
  assumes "v < 2 ^ 32" "off = length pre"
  shows "readUint32 (pre @ le32_bytes v @ r) off = Some v"
  using assms le32_sum [OF assms(1)]
  by (simp add: readUint32_def le32_bytes_def nth_append unat_byte_of)

lemma sub32_exact:
  assumes "b \<le> a" "a < 2 ^ 32"
  shows "sub32 a b = a - b"
proof -
  have b: "b mod 2 ^ 32 = b" using assms by simp
  have "a + 2 ^ 32 - b = (a - b) + (2 ^ 32 :: nat)" using assms by simp
  moreover have "a - b < 2 ^ 32" using assms by simp
  ultimately show ?thesis unfolding sub32_def b by (metis mod_add_self2 mod_less)
qed

lemma readUint_varint:
  assumes "drop off buf = varint_bytes d @ r" "length (varint_bytes d) \<le> room"
    "d < 2 ^ 28"
  shows "readUint buf off room = Some (length (varint_bytes d), d)"
proof -
  let ?n = "length (varint_bytes d)"
  have n5: "?n \<le> min room 5"
    using assms(2) length_varint_bytes_le4 [OF assms(3)] by simp
  then have "take (min room 5) (drop off buf)
             = varint_bytes d @ take (min room 5 - ?n) r"
    using assms(1) by simp
  moreover have "d mod 2 ^ 32 = d"
    using assms(3) by simp
  ultimately show ?thesis
    by (simp add: readUint_def varint_decode_bytes)
qed

fun deltas :: "nat \<Rightarrow> nat list \<Rightarrow> nat list" where
  "deltas p [] = []"
| "deltas p (x # xs) = (x - p) # deltas x xs"

definition packed :: "nat list \<Rightarrow> byte list" where
  "packed ids = concat (map varint_bytes (deltas 0 ids))"

definition uv_holds :: "UintVector \<Rightarrow> nat list \<Rightarrow> bool" where
  "uv_holds uv ids \<longleftrightarrow>
     length (data uv) = size uv \<and> size uv \<le> 6 * length ids + 12 \<and>
     sorted_wrt (<) ids \<and> (\<forall>i\<in>set ids. i < 2 ^ 28) \<and>
     (if ids = [] then offset uv = 0
      else 8 \<le> size uv \<and> offset uv = length (packed ids) + 4 \<and> offset uv \<le> size uv \<and>
           take (offset uv) (data uv) = packed ids @ le32_bytes (last ids))"

lemma length_deltas [simp]: "length (deltas p xs) = length xs"
  by (induction xs arbitrary: p) auto

lemma deltas_append:
  "deltas p (xs @ [v]) = deltas p xs @ [v - (if xs = [] then p else last xs)]"
  by (induction xs arbitrary: p) auto

lemma packed_Nil [simp]: "packed [] = []"
  by (simp add: packed_def)

lemma packed_snoc:
  "packed (ids @ [v]) = packed ids @ varint_bytes (v - (if ids = [] then 0 else last ids))"
  by (simp add: packed_def deltas_append)

lemma strict_sorted_length_le:
  assumes "sorted_wrt (<) (ids :: nat list)" "\<forall>i\<in>set ids. i < M"
  shows "length ids \<le> M"
proof -
  have "distinct ids" using assms(1) by (simp add: strict_sorted_iff)
  then have "length ids = card (set ids)" by (simp add: distinct_card)
  also have "\<dots> \<le> card {..<M}" using assms(2) by (intro card_mono) auto
  finally show ?thesis by simp
qed

lemma uv_holds_size_lt: "uv_holds uv ids \<Longrightarrow> size uv < 2 ^ 31"
proof -
  assume h: "uv_holds uv ids"
  then have "length ids \<le> 2 ^ 28"
    by (intro strict_sorted_length_le) (auto simp: uv_holds_def)
  moreover have "size uv \<le> 6 * length ids + 12" using h by (simp add: uv_holds_def)
  ultimately show ?thesis by simp
qed

lemma deltas_lt:
  "sorted_wrt (<) ids \<Longrightarrow> \<forall>i\<in>set ids. i < M \<Longrightarrow> \<forall>d\<in>set (deltas p ids). d < M"
  by (induction ids arbitrary: p) (auto simp: less_imp_diff_less)


lemma length_packed_le:
  assumes "sorted_wrt (<) ids" "\<forall>i\<in>set ids. i < 2 ^ 28"
  shows "length (packed ids) \<le> 4 * length ids"
proof -
  have "\<forall>d\<in>set ds. d < 2 ^ 28 \<Longrightarrow> length (concat (map varint_bytes ds)) \<le> 4 * length ds"
    for ds :: "nat list"
  proof (induction ds)
    case Nil
    then show ?case by simp
  next
    case (Cons d ds)
    then show ?case using length_varint_bytes_le4 [of d] by simp
  qed
  from this [OF deltas_lt [OF assms, of 0]] show ?thesis
    by (simp add: packed_def)
qed


lemma uv_holds_offset_le:
  assumes "uv_holds uv ids"
  shows "offset uv \<le> size uv" "offset uv \<le> 4 * length ids + 4"
proof -
  show "offset uv \<le> size uv"
    using assms by (auto simp: uv_holds_def split: if_splits)
  have "length (packed ids) \<le> 4 * length ids"
    using assms by (intro length_packed_le) (auto simp: uv_holds_def)
  then show "offset uv \<le> 4 * length ids + 4"
    using assms by (auto simp: uv_holds_def split: if_splits)
qed

lemma allocateMoreIfFull_holds:
  assumes h: "uv_holds uv ids"
  defines "uv1 \<equiv> allocateMoreIfFull uv"
  shows "offset uv1 = offset uv"
    and "length (data uv1) = size uv1"
    and "take (offset uv) (data uv1) = take (offset uv) (data uv)"
    and "size uv1 \<le> 6 * length ids + 18"
    and "offset uv + 8 \<le> size uv1 \<or> (ids \<noteq> [] \<and> offset uv + 4 \<le> size uv1)"
    and "8 \<le> size uv1"
    and "size uv1 < 2 ^ 32"
proof -
  note ol = uv_holds_offset_le [OF h]
  have lt: "size uv < 2 ^ 31" by (rule uv_holds_size_lt [OF h])
  have len: "length (data uv) = size uv" using h by (simp add: uv_holds_def)
  have sz: "size uv \<le> 6 * length ids + 12" using h by (simp add: uv_holds_def)
  have s32: "sub32 (size uv) (offset uv) = size uv - offset uv"
    using ol(1) lt by (intro sub32_exact) auto
  have n8: "ids \<noteq> [] \<Longrightarrow> 8 \<le> size uv"
    using h by (auto simp: uv_holds_def)
  have e0: "ids = [] \<Longrightarrow> offset uv = 0"
    using h by (auto simp: uv_holds_def)
  have lids: "length ids \<le> 2 ^ 28"
    using h by (intro strict_sorted_length_le) (auto simp: uv_holds_def)
  show "offset uv1 = offset uv"
    by (simp add: uv1_def allocateMoreIfFull_def Let_def)
  show "length (data uv1) = size uv1"
    using ol(1) len by (auto simp: uv1_def allocateMoreIfFull_def Let_def s32 max_def)
  show "take (offset uv) (data uv1) = take (offset uv) (data uv)"
    using ol(1) len by (auto simp: uv1_def allocateMoreIfFull_def Let_def)
  show a4: "size uv1 \<le> 6 * length ids + 18"
    using ol sz by (auto simp: uv1_def allocateMoreIfFull_def Let_def s32 max_def)
  show "offset uv + 8 \<le> size uv1 \<or> (ids \<noteq> [] \<and> offset uv + 4 \<le> size uv1)"
  proof (cases "ids = []")
    case True
    then show ?thesis using e0 s32
      by (auto simp: uv1_def allocateMoreIfFull_def Let_def max_def)
  next
    case False
    then show ?thesis using n8 ol(1)
      by (auto simp: uv1_def allocateMoreIfFull_def Let_def s32 max_def)
  qed
  show "8 \<le> size uv1"
    by (auto simp: uv1_def allocateMoreIfFull_def Let_def s32 max_def)
  show "size uv1 < 2 ^ 32"
    using a4 lids by simp
qed


lemma write_at_append:
  assumes "length pre = off" "length bs \<le> length old"
  shows "write_at (pre @ old) off bs = Some (pre @ bs @ drop (length bs) old)"
  using assms by (simp add: write_at_def)

lemma split_at_offset:
  assumes "take n buf = pre" "n \<le> length buf"
  shows "buf = pre @ drop n buf" "length pre = n"
  using assms by (auto simp: append_take_drop_id)

lemma add_holds:
  assumes h: "uv_holds uv ids" and gt: "\<forall>i\<in>set ids. i < v" and lt: "v < 2 ^ 28"
  shows "\<exists>uv'. add v uv = Inr (True, uv') \<and> uv_holds uv' (ids @ [v])"
proof -
  define uv1 where "uv1 = allocateMoreIfFull uv"
  note a = allocateMoreIfFull_holds [OF h, folded uv1_def]
  have srt: "sorted_wrt (<) (ids @ [v])"
    using h gt by (simp add: uv_holds_def sorted_wrt_append)
  have bnd: "\<forall>i\<in>set (ids @ [v]). i < 2 ^ 28"
    using h lt by (auto simp: uv_holds_def)
  show ?thesis
  proof (cases "ids = []")
    case True
    let ?vb = "varint_bytes v"
    let ?n = "length ?vb"
    have off0: "offset uv1 = 0" using h True a(1) by (simp add: uv_holds_def)
    have n4: "?n \<le> 4" by (rule length_varint_bytes_le4 [OF lt])
    have sz8: "8 \<le> length (data uv1)" using a(2,6) by simp
    have w1: "write_at (data uv1) 0 ?vb = Some (?vb @ drop ?n (data uv1))"
      using write_at_append [of "[]" 0 ?vb "data uv1"] n4 sz8 by simp
    have w2: "write_at (?vb @ drop ?n (data uv1)) ?n (le32_bytes v)
              = Some (?vb @ le32_bytes v @ drop 4 (drop ?n (data uv1)))"
      using write_at_append [of ?vb ?n "le32_bytes v" "drop ?n (data uv1)"] n4 sz8 by simp
    define uv' where "uv' = uv1\<lparr>data := ?vb @ le32_bytes v @ drop 4 (drop ?n (data uv1)),
                                 offset := ?n + 4\<rparr>"
    have r: "add v uv = Inr (True, uv')"
      using off0 lt n4 a(6) w1 w2
      by (simp add: add_def uv1_def [symmetric] empty_def N4_MAX_UINT_def writeUint_def
          writeUint32_def uv'_def)
    have "uv_holds uv' (ids @ [v])"
      using True srt bnd n4 sz8 a(2,4,6) lt
      by (simp add: uv_holds_def uv'_def packed_def)
    with r show ?thesis by blast
  next
    case False
    let ?P = "packed ids"
    let ?L = "length ?P"
    let ?d = "v - last ids"
    let ?vb = "varint_bytes ?d"
    let ?n = "length ?vb"
    have last_lt: "last ids < v" using gt False by simp
    have off: "offset uv = ?L + 4" using h False by (simp add: uv_holds_def)
    have off1: "offset uv1 = ?L + 4" using a(1) off by simp
    have tk: "take (?L + 4) (data uv1) = ?P @ le32_bytes (last ids)"
      using a(3) h False off by (simp add: uv_holds_def)
    have room: "?L + 8 \<le> length (data uv1)"
      using a(5) a(2) off False by auto
    have dlt: "?d < 2 ^ 28" using lt by simp
    have n4: "?n \<le> 4" by (rule length_varint_bytes_le4 [OF dlt])
    define old where "old = drop ?L (data uv1)"
    have buf: "data uv1 = ?P @ old"
    proof -
      have "take ?L (data uv1) = take ?L (take (?L + 4) (data uv1))" by simp
      also have "\<dots> = ?P" unfolding tk by simp
      finally show ?thesis unfolding old_def by (metis append_take_drop_id)
    qed
    have old_len: "8 \<le> length old" using room unfolding old_def by simp
    have old4: "take 4 old = le32_bytes (last ids)"
    proof -
      have "take (?L + 4) (?P @ old) = ?P @ take 4 old" by simp
      with tk buf show ?thesis by simp
    qed
    have nonempty: "\<not> empty uv1" using off1 by (simp add: empty_def)
    have s1: "sub32 (offset uv1) 4 = ?L"
      using off1 a(2) a(7) room by (subst sub32_exact) auto
    have lastlt: "last ids < 2 ^ 32" using last_lt lt by simp
    have rd: "readUint32 (data uv1) ?L = Some (last ids)"
    proof -
      have "old = le32_bytes (last ids) @ drop 4 old"
        using old4 by (metis append_take_drop_id)
      then have "data uv1 = ?P @ le32_bytes (last ids) @ drop 4 old"
        using buf by simp
      then show ?thesis
        using readUint32_le32 [OF lastlt, of ?L ?P "drop 4 old"] by simp
    qed
    have s2: "sub32 v (last ids) = ?d"
      using last_lt lt by (subst sub32_exact) auto
    have s3: "sub32 (size uv1) ?L = size uv1 - ?L"
      using a(2) a(7) room by (subst sub32_exact) auto
    have w1: "write_at (data uv1) ?L ?vb = Some (?P @ ?vb @ drop ?n old)"
      unfolding buf using write_at_append [of ?P ?L ?vb old] n4 old_len by simp
    have w2: "write_at (?P @ ?vb @ drop ?n old) (?L + ?n) (le32_bytes v)
              = Some (?P @ ?vb @ le32_bytes v @ drop 4 (drop ?n old))"
      using write_at_append [of "?P @ ?vb" "?L + ?n" "le32_bytes v" "drop ?n old"] n4 old_len
      by simp
    define uv' where "uv' = uv1\<lparr>data := ?P @ ?vb @ le32_bytes v @ drop 4 (drop ?n old),
                                 offset := ?L + ?n + 4\<rparr>"
    have rm: "?n \<le> size uv1 - ?L" using n4 room a(2) by simp
    have r: "add v uv = Inr (True, uv')"
      using nonempty last_lt dlt rm
      by (simp add: add_def uv1_def [symmetric] Let_def s1 rd s2 s3 N4_MAX_UINT_def writeUint_def
          writeUint32_def w1 w2 uv'_def)
    have len': "length (data uv') = size uv1"
      using a(2) n4 old_len unfolding uv'_def buf [THEN arg_cong, of length, symmetric]
      by (simp add: buf)
    have "uv_holds uv' (ids @ [v])"
      unfolding uv_holds_def
      using False srt bnd n4 a(4,6) len' room a(2)
      by (simp add: uv'_def packed_snoc)
    with r show ?thesis by blast
  qed
qed


fun running :: "nat \<Rightarrow> nat list \<Rightarrow> nat list" where
  "running p [] = []"
| "running p (d # ds) = (p + d) # running (p + d) ds"

lemma running_deltas:
  "sorted_wrt (<) ids \<Longrightarrow> \<forall>i\<in>set ids. p \<le> i \<Longrightarrow> running p (deltas p ids) = ids"
proof (induction ids arbitrary: p)
  case Nil
  then show ?case by simp
next
  case (Cons x xs)
  then have "running x (deltas x xs) = xs"
    by (intro Cons.IH) (auto simp: less_imp_le)
  with Cons.prems show ?case by simp
qed

lemma sum_list_deltas:
  "sorted_wrt (<) ids \<Longrightarrow> \<forall>i\<in>set ids. p \<le> i \<Longrightarrow> ids \<noteq> []
     \<Longrightarrow> p + sum_list (deltas p ids) = last ids"
proof (induction ids arbitrary: p)
  case Nil
  then show ?case by simp
next
  case (Cons x xs)
  show ?case
  proof (cases "xs = []")
    case True
    with Cons.prems show ?thesis by simp
  next
    case False
    have "x + sum_list (deltas x xs) = last xs"
      using Cons.prems False by (intro Cons.IH) (auto simp: less_imp_le)
    with Cons.prems False show ?thesis by simp
  qed
qed

lemma unpack_loop_packed:
  assumes "drop off buf = concat (map varint_bytes ds) @ r"
    and "\<forall>d\<in>set ds. d < 2 ^ 28"
    and "remaining = length (concat (map varint_bytes ds))"
    and "remaining < 2 ^ 32"
    and "val + sum_list ds < 2 ^ 32"
  shows "unpack_loop buf off remaining val acc = Inr (acc @ running val ds)"
  using assms
proof (induction ds arbitrary: off remaining val acc)
  case Nil
  then show ?case by (subst unpack_loop.simps) simp
next
  case (Cons d ds)
  let ?vb = "varint_bytes d"
  let ?n = "length ?vb"
  let ?rest = "concat (map varint_bytes ds)"
  have dlt: "d < 2 ^ 28" using Cons.prems(2) by simp
  have rem: "remaining = ?n + length ?rest" using Cons.prems(3) by simp
  have pos: "0 < remaining" using rem length_varint_bytes_pos [of d] by simp
  have dr: "drop off buf = ?vb @ (?rest @ r)" using Cons.prems(1) by simp
  have rd: "readUint buf off remaining = Some (?n, d)"
    by (rule readUint_varint [OF dr _ dlt]) (simp add: rem)
  have s: "sub32 remaining ?n = length ?rest"
    using rem Cons.prems(4) by (subst sub32_exact) auto
  have m: "(val + d) mod 2 ^ 32 = val + d" using Cons.prems(5) by simp
  have dr': "drop (off + ?n) buf = ?rest @ r"
  proof -
    have "drop (off + ?n) buf = drop ?n (drop off buf)" by (simp add: add.commute)
    then show ?thesis unfolding dr by simp
  qed
  have IH: "unpack_loop buf (off + ?n) (length ?rest) (val + d) (acc @ [val + d])
            = Inr ((acc @ [val + d]) @ running (val + d) ds)"
    using Cons.prems(2,4,5) rem by (intro Cons.IH [OF dr']) (auto simp: add.assoc)
  show ?case
    using pos m IH by (subst unpack_loop.simps) (simp add: rd s)
qed

lemma unpack_holds:
  assumes h: "uv_holds uv ids"
  shows "unpack uv = Inr ids"
proof (cases "ids = []")
  case True
  with h show ?thesis by (simp add: unpack_def uv_holds_def empty_def)
next
  case False
  let ?P = "packed ids"
  let ?L = "length ?P"
  have off: "offset uv = ?L + 4" using h False by (simp add: uv_holds_def)
  have tk: "take (?L + 4) (data uv) = ?P @ le32_bytes (last ids)"
    using h False off by (simp add: uv_holds_def)
  have srt: "sorted_wrt (<) ids" and bnd: "\<forall>i\<in>set ids. i < 2 ^ 28"
    using h by (auto simp: uv_holds_def)
  have szlt: "size uv < 2 ^ 31" by (rule uv_holds_size_lt [OF h])
  have ole: "offset uv \<le> size uv" by (rule uv_holds_offset_le(1) [OF h])
  have s: "sub32 (offset uv) 4 = ?L"
    using off ole szlt by (subst sub32_exact) auto
  have buf: "drop 0 (data uv) = concat (map varint_bytes (deltas 0 ids))
               @ (le32_bytes (last ids) @ drop (?L + 4) (data uv))"
    using tk append_take_drop_id [of "?L + 4" "data uv"] by (simp add: packed_def)
  have dl: "\<forall>d\<in>set (deltas 0 ids). d < 2 ^ 28"
    by (rule deltas_lt [OF srt bnd])
  have sm: "0 + sum_list (deltas 0 ids) < 2 ^ 32"
  proof -
    have "0 + sum_list (deltas 0 ids) = last ids"
      by (rule sum_list_deltas [OF srt _ False]) simp
    moreover have "last ids < 2 ^ 28" using bnd False by simp
    ultimately show ?thesis by simp
  qed
  have "unpack_loop (data uv) 0 ?L 0 [] = Inr ([] @ running 0 (deltas 0 ids))"
    using off ole szlt
    by (intro unpack_loop_packed [OF buf dl _ _ sm]) (auto simp: packed_def)
  moreover have "running 0 (deltas 0 ids) = ids"
    by (rule running_deltas [OF srt]) simp
  ultimately show ?thesis
    using off s by (simp add: unpack_def empty_def)
qed

lemma uv_holds_new: "uv_holds new_UintVector []"
  by (simp add: uv_holds_def new_UintVector_def)

section \<open>Properties of lists\<close>

text \<open>
  \<open>list_inv l s ids\<close>: the head of \<open>l\<close> holds the block ids \<open>ids\<close> and the store
  \<open>s\<close> has a block for each of them.  \<open>all_entries\<close> is the content of the list,
  the entries of its committed blocks in the order of their ids followed by the
  entries of the tail block.
\<close>

definition live :: "(bytes \<times> bool) list \<Rightarrow> bytes list" where
  "live es = map fst (filter (\<lambda>e. \<not> snd e) es)"

definition committed_entries :: "Store \<Rightarrow> nat list \<Rightarrow> (bytes \<times> bool) list" where
  "committed_entries s ids = concat (map (\<lambda>bid. entries (blocks s ! bid)) ids)"

definition tail_entries :: "List_t \<Rightarrow> (bytes \<times> bool) list" where
  "tail_entries l = (case block l of None \<Rightarrow> [] | Some b \<Rightarrow> entries b)"

definition all_entries :: "Store \<Rightarrow> nat list \<Rightarrow> List_t \<Rightarrow> (bytes \<times> bool) list" where
  "all_entries s ids l = committed_entries s ids @ tail_entries l"

definition list_inv :: "List_t \<Rightarrow> Store \<Rightarrow> nat list \<Rightarrow> bool" where
  "list_inv l s ids \<longleftrightarrow>
     uv_holds (block_ids (head l)) ids \<and> (\<forall>bid\<in>set ids. bid < length (blocks s))"

lemma live_append [simp]: "live (xs @ ys) = live xs @ live ys"
  by (simp add: live_def)

lemma live_Nil [simp]: "live [] = []"
  by (simp add: live_def)

lemma live_values_live: "live_values b = live (entries b)"
  by (simp add: live_values_def live_def)

lemma read_blocks_ok:
  "\<forall>bid\<in>set ids. bid < length (blocks s)
     \<Longrightarrow> read_blocks s ids = Inr (map (\<lambda>bid. blocks s ! bid) ids)"
  by (induction ids) (auto simp: Store_read_def)

lemma live_concat: "live (concat xss) = concat (map live xss)"
  by (induction xss) auto

lemma iterate_inv:
  assumes "list_inv l s ids"
  shows "iterate l s = Inr (live (all_entries s ids l))"
proof -
  have u: "unpack (block_ids (head l)) = Inr ids"
    using assms by (intro unpack_holds) (simp add: list_inv_def)
  have r: "read_blocks s ids = Inr (map (\<lambda>bid. blocks s ! bid) ids)"
    using assms by (intro read_blocks_ok) (simp add: list_inv_def)
  have t: "tail_values l = live (tail_entries l)"
    by (simp add: tail_values_def tail_entries_def live_values_live split: option.split)
  show ?thesis
    by (simp add: iterate_def u r t all_entries_def committed_entries_def live_concat
        comp_def live_values_live)
qed

lemma committed_entries_append_store:
  assumes "\<forall>bid\<in>set ids. bid < length (blocks s)" "blocks s' = blocks s @ extra"
  shows "committed_entries s' ids = committed_entries s ids"
proof -
  have "entries (blocks s' ! bid) = entries (blocks s ! bid)" if "bid \<in> set ids" for bid
    using assms that by (auto simp: nth_append)
  then show ?thesis by (simp add: committed_entries_def cong: map_cong)
qed

lemma committed_entries_snoc:
  "committed_entries s (ids @ [bid]) = committed_entries s ids @ entries (blocks s ! bid)"
  by (simp add: committed_entries_def)

lemma TryAdd_fresh:
  "entry_size v \<le> store_block_size s
     \<Longrightarrow> TryAdd v (allocate_block s)
         = (True, \<lparr>block_size = store_block_size s, entries = [(v, False)]\<rparr>)"
  by (simp add: TryAdd_def allocate_block_def next_offset_def)

lemma TryAdd_cases:
  "TryAdd v b = (True, b\<lparr>entries := entries b @ [(v, False)]\<rparr>) \<or> TryAdd v b = (False, b)"
  by (simp add: TryAdd_def)

lemma block_ids_Add_holds:
  assumes "uv_holds (block_ids (head l)) ids" "\<forall>i\<in>set ids. i < bid" "bid < 2 ^ 28"
  shows "\<exists>l1. block_ids_Add bid l = Inr l1 \<and> uv_holds (block_ids (head l1)) (ids @ [bid])
           \<and> block l1 = block l \<and> num_values_total (head l1) = num_values_total (head l)
           \<and> num_values_deleted (head l1) = num_values_deleted (head l)"
proof -
  from add_holds [OF assms] obtain uv' where
    "add bid (block_ids (head l)) = Inr (True, uv')" "uv_holds uv' (ids @ [bid])"
    by blast
  then show ?thesis by (simp add: block_ids_Add_def)
qed

lemma List_Add_inv:
  assumes inv: "list_inv l s ids"
    and fits_or: "entry_size v \<le> store_block_size s \<or> e = None"
    and res: "List_Add v l s = (e, l', s')"
    and bound: "length (blocks s') \<le> 2 ^ 28"
  shows "e = None \<and> (\<exists>ids' extra. list_inv l' s' ids'
         \<and> all_entries s' ids' l' = all_entries s ids l @ [(v, False)]
         \<and> blocks s' = blocks s @ extra \<and> store_block_size s' = store_block_size s
         \<and> num_values_total (head l') = num_values_total (head l) + 1
         \<and> num_values_deleted (head l') = num_values_deleted (head l))"
proof -
  define b0 where "b0 = (case block l of None \<Rightarrow> allocate_block s | Some b \<Rightarrow> b)"
  have b0e: "(case block l of None \<Rightarrow> [] | Some b \<Rightarrow> entries b) = entries b0"
    by (simp add: b0_def allocate_block_def split: option.split)
  from TryAdd_cases [of v b0] show ?thesis
  proof
    assume t: "TryAdd v b0 = (True, b0\<lparr>entries := entries b0 @ [(v, False)]\<rparr>)"
    then have r: "e = None" "s' = s"
      "l' = incr_total (l\<lparr>block := Some (b0\<lparr>entries := entries b0 @ [(v, False)]\<rparr>)\<rparr>)"
      using res by (simp_all add: List_Add_def Let_def b0_def [symmetric])
    have "list_inv l' s' ids"
      using inv by (simp add: r list_inv_def incr_total_def)
    moreover have "all_entries s' ids l' = all_entries s ids l @ [(v, False)]"
      by (simp add: r all_entries_def tail_entries_def incr_total_def b0e)
    ultimately show ?thesis
      by (intro conjI exI [of _ ids] exI [of _ "[]"]) (simp_all add: r incr_total_def)
  next
    assume t: "TryAdd v b0 = (False, b0)"
    define s1 where "s1 = s\<lparr>blocks := blocks s @ [b0]\<rparr>"
    define bid where "bid = length (blocks s)"
    define l0 where "l0 = l\<lparr>block := Some b0\<rparr>"
    have c: "commit_block b0 s = (bid, s1)"
      by (simp add: commit_block_def Store_append_def s1_def bid_def)
    have uv0: "uv_holds (block_ids (head l0)) ids"
      using inv by (simp add: l0_def list_inv_def)
    have lt: "\<forall>i\<in>set ids. i < bid"
      using inv by (simp add: list_inv_def bid_def)
    show ?thesis
    proof (cases "block_ids_Add bid l0")
      case (Inl err)
      then have "s' = s1" using res t c
        by (simp add: List_Add_def Let_def b0_def [symmetric] l0_def [symmetric])
      then have "bid < 2 ^ 28" using bound by (simp add: s1_def bid_def)
      from block_ids_Add_holds [OF uv0 lt this] Inl show ?thesis by auto
    next
      case (Inr l1)
      have s': "s' = s1" using res t c Inr
        by (auto simp: List_Add_def Let_def b0_def [symmetric] l0_def [symmetric]
            split: prod.splits bool.splits)
      then have bb: "bid < 2 ^ 28" using bound by (simp add: s1_def bid_def)
      from block_ids_Add_holds [OF uv0 lt bb] Inr
      have l1: "uv_holds (block_ids (head l1)) (ids @ [bid])"
        "num_values_total (head l1) = num_values_total (head l)"
        "num_values_deleted (head l1) = num_values_deleted (head l)"
        by (auto simp: l0_def)
      have fits: "entry_size v \<le> store_block_size s"
      proof (rule ccontr)
        assume nf: "\<not> entry_size v \<le> store_block_size s"
        then have "TryAdd v (allocate_block s1) = (False, allocate_block s1)"
          by (simp add: TryAdd_def allocate_block_def next_offset_def s1_def)
        then have "e = Some AssertionFailed"
          using res t c Inr
          by (simp add: List_Add_def Let_def b0_def [symmetric] l0_def [symmetric])
        with fits_or nf show False by simp
      qed
      have fits1: "entry_size v \<le> store_block_size s1" using fits by (simp add: s1_def)
      note fr = TryAdd_fresh [OF fits1]
      have "List_Add v l s
            = (None, incr_total (l1\<lparr>block := Some \<lparr>block_size = store_block_size s1,
                                                         entries = [(v, False)]\<rparr>\<rparr>), s1)"
        by (simp add: List_Add_def Let_def b0_def [symmetric] l0_def [symmetric] t c Inr fr)
      with res have r: "e = None"
        "l' = incr_total (l1\<lparr>block := Some \<lparr>block_size = store_block_size s1,
                                               entries = [(v, False)]\<rparr>\<rparr>)"
        by auto
      have inv': "list_inv l' s' (ids @ [bid])"
        using l1(1) lt by (auto simp: r s' list_inv_def incr_total_def s1_def bid_def)
      have ce: "committed_entries s1 ids = committed_entries s ids"
        using inv by (intro committed_entries_append_store [where extra = "[b0]"])
          (auto simp: list_inv_def s1_def)
      have "all_entries s' (ids @ [bid]) l' = all_entries s ids l @ [(v, False)]"
        by (simp add: all_entries_def committed_entries_snoc ce s' r incr_total_def
            tail_entries_def b0e)
          (simp add: s1_def bid_def)
      with inv' show ?thesis
        by (intro conjI exI [of _ "ids @ [bid]"] exI [of _ "[b0]"])
          (simp_all add: r s' s1_def incr_total_def l1)
    qed
  qed
qed

lemma List_Flush_inv:
  assumes inv: "list_inv l s ids"
    and res: "List_Flush l s = (e, l', s')"
    and bound: "length (blocks s') \<le> 2 ^ 28"
  shows "e = None \<and> (\<exists>ids' extra. list_inv l' s' ids'
         \<and> all_entries s' ids' l' = all_entries s ids l
         \<and> blocks s' = blocks s @ extra \<and> store_block_size s' = store_block_size s
         \<and> num_values_total (head l') = num_values_total (head l)
         \<and> num_values_deleted (head l') = num_values_deleted (head l)
         \<and> block l' = None)"
proof (cases "block l")
  case None
  then have "e = None" "l' = l" "s' = s" using res by (simp_all add: List_Flush_def)
  with inv None show ?thesis
    by (intro conjI exI [of _ ids] exI [of _ "[]"]) simp_all
next
  case (Some b)
  define s1 where "s1 = s\<lparr>blocks := blocks s @ [b]\<rparr>"
  define bid where "bid = length (blocks s)"
  have c: "commit_block b s = (bid, s1)"
    by (simp add: commit_block_def Store_append_def s1_def bid_def)
  have uv0: "uv_holds (block_ids (head l)) ids"
    using inv by (simp add: list_inv_def)
  have lt: "\<forall>i\<in>set ids. i < bid"
    using inv by (simp add: list_inv_def bid_def)
  have s': "s' = s1" using res Some c
    by (auto simp: List_Flush_def split: sum.splits)
  then have bb: "bid < 2 ^ 28" using bound by (simp add: s1_def bid_def)
  from block_ids_Add_holds [OF uv0 lt bb] obtain l1 where
    l1: "block_ids_Add bid l = Inr l1" "uv_holds (block_ids (head l1)) (ids @ [bid])"
    "num_values_total (head l1) = num_values_total (head l)"
    "num_values_deleted (head l1) = num_values_deleted (head l)"
    by blast
  have "List_Flush l s = (None, l1\<lparr>block := None\<rparr>, s1)"
    by (simp add: List_Flush_def Some c l1(1))
  with res have r: "e = None" "l' = l1\<lparr>block := None\<rparr>" by auto
  have inv': "list_inv l' s' (ids @ [bid])"
    using l1(2) lt by (auto simp: r s' list_inv_def s1_def bid_def)
  have ce: "committed_entries s1 ids = committed_entries s ids"
    using inv by (intro committed_entries_append_store [where extra = "[b]"])
      (auto simp: list_inv_def s1_def)
  have "all_entries s' (ids @ [bid]) l' = all_entries s ids l"
    by (simp add: all_entries_def committed_entries_snoc ce s' r tail_entries_def Some)
      (simp add: s1_def bid_def)
  with inv' show ?thesis
    by (intro conjI exI [of _ "ids @ [bid]"] exI [of _ "[b]"])
      (simp_all add: r s' s1_def l1)
qed

lemma mark_entries_append:
  "mark_entries sel a found (xs @ ys) =
     (case mark_entries sel a found xs of
        (xs', f1, m1) \<Rightarrow>
          (case mark_entries sel a f1 ys of
             (ys', f2, m2) \<Rightarrow> (xs' @ ys', f2, m1 @ m2)))"
  by (induction xs arbitrary: found) (auto split: prod.splits)

lemma mark_entries_length:
  "mark_entries sel a found es = (es', f, m) \<Longrightarrow> length es' = length es"
  by (induction es arbitrary: found es' f m) (auto split: prod.splits if_splits)

lemma mark_entries_sizes:
  "mark_entries sel a found es = (es', f, m) \<Longrightarrow> map fst es' = map fst es"
  by (induction es arbitrary: found es' f m) (auto split: prod.splits if_splits)

lemma mark_entries_deleted:
  "mark_entries sel a found es = (es', f, m)
     \<Longrightarrow> length (filter snd es') = length (filter snd es) + length m"
  by (induction es arbitrary: found es' f m) (auto split: prod.splits if_splits)

lemma mark_entries_live:
  "mark_entries sel a found es = (es', f, m)
     \<Longrightarrow> length (live es') + length m = length (live es)"
  by (induction es arbitrary: found es' f m) (auto simp: live_def split: prod.splits if_splits)


lemma committed_entries_Cons:
  "committed_entries s (bid # ids) = entries (blocks s ! bid) @ committed_entries s ids"
  by (simp add: committed_entries_def)

lemma committed_entries_cong:
  assumes "\<forall>bid\<in>set ids. blocks s' ! bid = blocks s ! bid"
  shows "committed_entries s' ids = committed_entries s ids"
  using assms by (simp add: committed_entries_def cong: map_cong)

lemma mark_blocks_inv:
  assumes "distinct ids" "\<forall>bid\<in>set ids. bid < length (blocks s)"
    and "mark_entries sel a found (committed_entries s ids) = (es', f, m)"
  shows "\<exists>s'. mark_blocks sel a found ids s = Inr (s', f, m)
           \<and> committed_entries s' ids = es'
           \<and> length (blocks s') = length (blocks s)
           \<and> store_block_size s' = store_block_size s
           \<and> (\<forall>j. j \<notin> set ids \<longrightarrow> blocks s' ! j = blocks s ! j)"
  using assms
proof (induction ids arbitrary: found s es' f m)
  case Nil
  then show ?case by (simp add: committed_entries_def)
next
  case (Cons bid rest)
  define b where "b = blocks s ! bid"
  obtain e1 f1 m1 where me1: "mark_entries sel a found (entries b) = (e1, f1, m1)"
    by (cases "mark_entries sel a found (entries b)") auto
  obtain e2 f2 m2 where me2: "mark_entries sel a f1 (committed_entries s rest) = (e2, f2, m2)"
    by (cases "mark_entries sel a f1 (committed_entries s rest)") auto
  have tot: "es' = e1 @ e2" "f = f2" "m = m1 @ m2"
    using Cons.prems(3) me1 me2
    by (simp_all add: committed_entries_Cons mark_entries_append b_def)
  have lt: "bid < length (blocks s)" using Cons.prems(2) by simp
  have rd: "Store_read bid s = Inr b" using lt by (simp add: Store_read_def b_def)
  define s1 where "s1 = s\<lparr>blocks := (blocks s)[bid := b\<lparr>entries := e1\<rparr>]\<rparr>"
  have wr: "(if e1 \<noteq> entries b then Store_replace bid (b\<lparr>entries := e1\<rparr>) s else Inr s) = Inr s1"
  proof (cases "e1 = entries b")
    case True
    then have "b\<lparr>entries := e1\<rparr> = b" by simp
    then have "(blocks s)[bid := b\<lparr>entries := e1\<rparr>] = blocks s"
      by (simp add: b_def)
    then show ?thesis using True by (simp add: s1_def)
  next
    case False
    then show ?thesis using lt by (simp add: Store_replace_def s1_def)
  qed
  have nin: "bid \<notin> set rest" and dr: "distinct rest" using Cons.prems(1) by simp_all
  have lt1: "\<forall>i\<in>set rest. i < length (blocks s1)"
    using Cons.prems(2) by (simp add: s1_def)
  have ce1: "committed_entries s1 rest = committed_entries s rest"
  proof (intro committed_entries_cong ballI)
    fix j assume "j \<in> set rest"
    then have "bid \<noteq> j" using nin by auto
    then show "blocks s1 ! j = blocks s ! j" by (simp add: s1_def)
  qed
  from Cons.IH [OF dr lt1, of f1 e2 f2 m2] me2 ce1 obtain s2 where
    s2: "mark_blocks sel a f1 rest s1 = Inr (s2, f2, m2)"
    "committed_entries s2 rest = e2"
    "length (blocks s2) = length (blocks s1)"
    "store_block_size s2 = store_block_size s1"
    "\<forall>j. j \<notin> set rest \<longrightarrow> blocks s2 ! j = blocks s1 ! j"
    by auto
  have r: "mark_blocks sel a found (bid # rest) s = Inr (s2, f, m)"
    by (simp add: rd me1 wr s2(1) tot)
  have bb: "blocks s2 ! bid = b\<lparr>entries := e1\<rparr>"
    using s2(5) nin lt by (simp add: s1_def nth_list_update)
  have c: "committed_entries s2 (bid # rest) = es'"
    by (simp add: committed_entries_Cons bb s2(2) tot)
  have o: "\<forall>j. j \<notin> set (bid # rest) \<longrightarrow> blocks s2 ! j = blocks s ! j"
    using s2(5) by (auto simp: s1_def nth_list_update)
  from r c o s2(3,4) show ?case
    by (intro exI [of _ s2]) (simp add: s1_def)
qed


lemma list_inv_distinct: "list_inv l s ids \<Longrightarrow> distinct ids"
  by (simp add: list_inv_def uv_holds_def strict_sorted_iff)

lemma List_mark_inv:
  assumes inv: "list_inv l s ids"
    and me: "mark_entries sel a False (all_entries s ids l) = (es', f, m)"
  shows "\<exists>l' s'. List_mark sel a l s = Inr (m, l', s')
           \<and> list_inv l' s' ids \<and> all_entries s' ids l' = es'
           \<and> length (blocks s') = length (blocks s)
           \<and> store_block_size s' = store_block_size s
           \<and> num_values_total (head l') = num_values_total (head l)
           \<and> num_values_deleted (head l') = num_values_deleted (head l) + of_nat (length m)"
proof -
  have u: "unpack (block_ids (head l)) = Inr ids"
    using inv by (intro unpack_holds) (simp add: list_inv_def)
  have lt: "\<forall>bid\<in>set ids. bid < length (blocks s)"
    using inv by (simp add: list_inv_def)
  obtain e1 f1 m1 where me1: "mark_entries sel a False (committed_entries s ids) = (e1, f1, m1)"
    by (cases "mark_entries sel a False (committed_entries s ids)") auto
  obtain e2 f2 m2 where me2: "mark_entries sel a f1 (tail_entries l) = (e2, f2, m2)"
    by (cases "mark_entries sel a f1 (tail_entries l)") auto
  have tot: "es' = e1 @ e2" "m = m1 @ m2"
    using me me1 me2 by (simp_all add: all_entries_def mark_entries_append)
  from mark_blocks_inv [OF list_inv_distinct [OF inv] lt me1] obtain s' where
    s': "mark_blocks sel a False ids s = Inr (s', f1, m1)"
    "committed_entries s' ids = e1"
    "length (blocks s') = length (blocks s)"
    "store_block_size s' = store_block_size s"
    by blast
  show ?thesis
  proof (cases "block l")
    case None
    then have e2: "e2 = []" "m2 = []" using me2 by (simp_all add: tail_entries_def)
    define l' where "l' = add_deleted (length m1) l"
    have r: "List_mark sel a l s = Inr (m, l', s')"
      by (simp add: List_mark_def u s'(1) None l'_def tot e2)
    have i: "list_inv l' s' ids"
      using inv s'(3) by (simp add: list_inv_def l'_def add_deleted_def)
    have ae: "all_entries s' ids l' = es'"
      by (simp add: all_entries_def s'(2) tot e2 l'_def add_deleted_def tail_entries_def None)
    from r i ae s'(3,4) show ?thesis
      by (intro exI [of _ l'] exI [of _ s']) (simp add: l'_def add_deleted_def tot e2)
  next
    case (Some b)
    then have me2': "mark_entries sel a f1 (entries b) = (e2, f2, m2)"
      using me2 by (simp add: tail_entries_def)
    define l' where "l' = add_deleted (length (m1 @ m2)) (l\<lparr>block := Some (b\<lparr>entries := e2\<rparr>)\<rparr>)"
    have r: "List_mark sel a l s = Inr (m, l', s')"
      by (simp add: List_mark_def u s'(1) Some me2' l'_def tot)
    have i: "list_inv l' s' ids"
      using inv s'(3) by (simp add: list_inv_def l'_def add_deleted_def)
    have ae: "all_entries s' ids l' = es'"
      by (simp add: all_entries_def s'(2) tot l'_def add_deleted_def tail_entries_def)
    from r i ae s'(3,4) show ?thesis
      by (intro exI [of _ l'] exI [of _ s']) (simp add: l'_def add_deleted_def tot)
  qed
qed

definition block_id_list :: "List_t \<Rightarrow> nat list" where
  "block_id_list l = (case unpack (block_ids (head l)) of Inl e \<Rightarrow> [] | Inr ids \<Rightarrow> ids)"

definition list_entries :: "List_t \<Rightarrow> Store \<Rightarrow> (bytes \<times> bool) list" where
  "list_entries l s = all_entries s (block_id_list l) l"

definition list_ok :: "List_t \<Rightarrow> Store \<Rightarrow> bool" where
  "list_ok l s = list_inv l s (block_id_list l)"

lemma list_inv_ids:
  assumes "list_inv l s ids"
  shows "block_id_list l = ids" "list_ok l s" "list_entries l s = all_entries s ids l"
proof -
  have "unpack (block_ids (head l)) = Inr ids"
    using assms by (intro unpack_holds) (simp add: list_inv_def)
  then show "block_id_list l = ids" by (simp add: block_id_list_def)
  then show "list_ok l s" "list_entries l s = all_entries s ids l"
    using assms by (simp_all add: list_ok_def list_entries_def)
qed

lemma list_ok_new: "list_ok new_List s" "list_entries new_List s = []"
proof -
  have "list_inv new_List s []"
    by (simp add: list_inv_def new_List_def uv_holds_new)
  from list_inv_ids [OF this] show "list_ok new_List s" "list_entries new_List s = []"
    by (simp_all add: all_entries_def committed_entries_def tail_entries_def new_List_def)
qed

lemma iterate_ok: "list_ok l s \<Longrightarrow> iterate l s = Inr (live (list_entries l s))"
  by (simp add: list_ok_def list_entries_def iterate_inv)

lemma List_Add_ok:
  assumes "list_ok l s" "entry_size v \<le> store_block_size s \<or> e = None"
    "List_Add v l s = (e, l', s')" "length (blocks s') \<le> 2 ^ 28"
  shows "e = None" "list_ok l' s'" "list_entries l' s' = list_entries l s @ [(v, False)]"
    "\<exists>extra. blocks s' = blocks s @ extra" "store_block_size s' = store_block_size s"
    "num_values_total (head l') = num_values_total (head l) + 1"
    "num_values_deleted (head l') = num_values_deleted (head l)"
proof -
  from List_Add_inv [OF assms(1) [unfolded list_ok_def] assms(2-4)]
  obtain ids' extra where
    *: "e = None" "list_inv l' s' ids'"
    "all_entries s' ids' l' = all_entries s (block_id_list l) l @ [(v, False)]"
    "blocks s' = blocks s @ extra" "store_block_size s' = store_block_size s"
    "num_values_total (head l') = num_values_total (head l) + 1"
    "num_values_deleted (head l') = num_values_deleted (head l)"
    by blast
  note i = list_inv_ids [OF *(2)]
  show "e = None" "list_ok l' s'" "list_entries l' s' = list_entries l s @ [(v, False)]"
    "\<exists>extra. blocks s' = blocks s @ extra" "store_block_size s' = store_block_size s"
    "num_values_total (head l') = num_values_total (head l) + 1"
    "num_values_deleted (head l') = num_values_deleted (head l)"
    using * i by (auto simp: list_entries_def)
qed

lemma List_Flush_ok:
  assumes "list_ok l s" "List_Flush l s = (e, l', s')" "length (blocks s') \<le> 2 ^ 28"
  shows "e = None" "list_ok l' s'" "list_entries l' s' = list_entries l s"
    "\<exists>extra. blocks s' = blocks s @ extra" "store_block_size s' = store_block_size s"
    "num_values_total (head l') = num_values_total (head l)"
    "num_values_deleted (head l') = num_values_deleted (head l)"
    "block l' = None"
proof -
  from List_Flush_inv [OF assms(1) [unfolded list_ok_def] assms(2-3)]
  obtain ids' extra where
    *: "e = None" "list_inv l' s' ids'"
    "all_entries s' ids' l' = all_entries s (block_id_list l) l"
    "blocks s' = blocks s @ extra" "store_block_size s' = store_block_size s"
    "num_values_total (head l') = num_values_total (head l)"
    "num_values_deleted (head l') = num_values_deleted (head l)"
    "block l' = None"
    by blast
  note i = list_inv_ids [OF *(2)]
  show "e = None" "list_ok l' s'" "list_entries l' s' = list_entries l s"
    "\<exists>extra. blocks s' = blocks s @ extra" "store_block_size s' = store_block_size s"
    "num_values_total (head l') = num_values_total (head l)"
    "num_values_deleted (head l') = num_values_deleted (head l)"
    "block l' = None"
    using * i by (auto simp: list_entries_def)
qed

lemma List_mark_ok:
  assumes "list_ok l s" "mark_entries sel a False (list_entries l s) = (es', f, m)"
  shows "\<exists>l' s'. List_mark sel a l s = Inr (m, l', s')
           \<and> list_ok l' s' \<and> list_entries l' s' = es'
           \<and> length (blocks s') = length (blocks s)
           \<and> store_block_size s' = store_block_size s
           \<and> num_values_total (head l') = num_values_total (head l)
           \<and> num_values_deleted (head l') = num_values_deleted (head l) + of_nat (length m)"
proof -
  from List_mark_inv [OF assms(1) [unfolded list_ok_def] assms(2) [unfolded list_entries_def]]
  obtain l' s' where
    *: "List_mark sel a l s = Inr (m, l', s')" "list_inv l' s' (block_id_list l)"
    "all_entries s' (block_id_list l) l' = es'"
    "length (blocks s') = length (blocks s)" "store_block_size s' = store_block_size s"
    "num_values_total (head l') = num_values_total (head l)"
    "num_values_deleted (head l') = num_values_deleted (head l) + of_nat (length m)"
    by blast
  note i = list_inv_ids [OF *(2)]
  show ?thesis
    using * i by (intro exI [of _ l'] exI [of _ s']) (simp add: list_entries_def)
qed

lemma list_ok_frame:
  assumes "list_ok l s" "blocks s' = blocks s @ extra"
  shows "list_ok l s'" "list_entries l s' = list_entries l s"
proof -
  have lt: "\<forall>bid\<in>set (block_id_list l). bid < length (blocks s)"
    using assms(1) by (simp add: list_ok_def list_inv_def)
  show "list_ok l s'"
    using assms by (auto simp: list_ok_def list_inv_def)
  show "list_entries l s' = list_entries l s"
    using committed_entries_append_store [OF lt assms(2)]
    by (simp add: list_entries_def all_entries_def)
qed

lemma List_Add_mono:
  "List_Add v l s = (e, l', s') \<Longrightarrow> length (blocks s) \<le> length (blocks s')"
  by (auto simp: List_Add_def Let_def commit_block_def Store_append_def
      split: prod.splits bool.splits sum.splits)

lemma List_Flush_mono:
  "List_Flush l s = (e, l', s') \<Longrightarrow> length (blocks s) \<le> length (blocks s')"
  by (auto simp: List_Flush_def commit_block_def Store_append_def
      split: option.splits sum.splits)

lemma mark_blocks_length:
  "mark_blocks sel a found ids s = Inr (s', f, m) \<Longrightarrow> length (blocks s') = length (blocks s)"
proof (induction ids arbitrary: found s s' f m)
  case Nil
  then show ?case by simp
next
  case (Cons bid ids)
  then show ?case
    by (fastforce simp: Store_replace_def split: sum.splits prod.splits if_splits)
qed

lemma List_mark_length:
  "List_mark sel a l s = Inr (m, l', s') \<Longrightarrow> length (blocks s') = length (blocks s)"
  by (auto simp: List_mark_def split: sum.splits prod.splits option.splits
      dest: mark_blocks_length)

lemma List_Add_grows:
  "List_Add v l s = (e, l', s') \<Longrightarrow> length (blocks s') \<le> length (blocks s) + 1"
  by (auto simp: List_Add_def Let_def commit_block_def Store_append_def
      split: prod.splits bool.splits sum.splits)

lemma add_all_mono:
  "add_all vs l s = (e, l', s') \<Longrightarrow> length (blocks s) \<le> length (blocks s')"
proof (induction vs arbitrary: l s)
  case Nil
  then show ?case by simp
next
  case (Cons v vs)
  obtain e1 l1 s1 where a: "List_Add v l s = (e1, l1, s1)"
    by (cases "List_Add v l s") auto
  note m = List_Add_mono [OF a]
  show ?case
  proof (cases e1)
    case None
    with Cons.prems a have "add_all vs l1 s1 = (e, l', s')" by simp
    from Cons.IH [OF this] m show ?thesis by simp
  next
    case (Some err)
    with Cons.prems a m show ?thesis by simp
  qed
qed

lemma add_all_ok:
  assumes "list_ok l s" "add_all vs l s = (e, l', s')" "length (blocks s') \<le> 2 ^ 28"
    and "e = None \<or> (\<forall>v\<in>set vs. entry_size v \<le> store_block_size s)"
  shows "e = None \<and> list_ok l' s'
         \<and> list_entries l' s' = list_entries l s @ map (\<lambda>v. (v, False)) vs
         \<and> store_block_size s' = store_block_size s
         \<and> num_values_total (head l') = num_values_total (head l) + of_nat (length vs)
         \<and> num_values_deleted (head l') = num_values_deleted (head l)"
  using assms
proof (induction vs arbitrary: l s)
  case Nil
  then show ?case by simp
next
  case (Cons v vs)
  obtain e1 l1 s1 where a: "List_Add v l s = (e1, l1, s1)"
    by (cases "List_Add v l s") auto
  have b1: "length (blocks s1) \<le> 2 ^ 28"
  proof (cases e1)
    case None
    with Cons.prems(2) a have "add_all vs l1 s1 = (e, l', s')" by simp
    from add_all_mono [OF this] Cons.prems(3) show ?thesis by simp
  next
    case (Some err)
    with Cons.prems(2,3) a show ?thesis by simp
  qed
  have f1: "entry_size v \<le> store_block_size s \<or> e1 = None"
  proof (cases e1)
    case None
    then show ?thesis by simp
  next
    case (Some err)
    with Cons.prems(2) a have "e = Some err" by simp
    with Cons.prems(4) show ?thesis by simp
  qed
  note A = List_Add_ok [OF Cons.prems(1) f1 a b1]
  from A(1) Cons.prems(2) a have rest: "add_all vs l1 s1 = (e, l', s')" by simp
  have f2: "e = None \<or> (\<forall>v\<in>set vs. entry_size v \<le> store_block_size s1)"
    using Cons.prems(4) A(5) by auto
  from Cons.IH [OF A(2) rest Cons.prems(3) f2] A(3,5,6,7)
  show ?case by (simp add: add.assoc add.commute)
qed


definition counted :: "List_t \<times> Store \<Rightarrow> nat \<Rightarrow> bool" where
  "counted st n \<longleftrightarrow>
     (case st of (l, s) \<Rightarrow>
        list_ok l s
        \<and> num_values_total (head l) = of_nat (length (list_entries l s))
        \<and> num_values_deleted (head l) = of_nat (length (filter snd (list_entries l s)))
        \<and> length (list_entries l s) \<le> n)"

lemma step_mono:
  "step x (l, s) = Inr (l', s') \<Longrightarrow> length (blocks s) \<le> length (blocks s')"
  by (cases x)
    (auto split: prod.splits option.splits sum.splits
      dest: List_Add_mono List_Flush_mono List_mark_length)

lemma run_mono:
  "run xs (l, s) = Inr (l', s') \<Longrightarrow> length (blocks s) \<le> length (blocks s')"
proof (induction xs arbitrary: l s)
  case Nil
  then show ?case by simp
next
  case (Cons x xs)
  then obtain l1 s1 where a: "step x (l, s) = Inr (l1, s1)" "run xs (l1, s1) = Inr (l', s')"
    by (auto split: sum.splits)
  from step_mono [OF a(1)] Cons.IH [OF a(2)] show ?case by simp
qed

lemma step_counted:
  assumes "counted (l, s) n" "step x (l, s) = Inr (l', s')" "length (blocks s') \<le> 2 ^ 28"
  shows "counted (l', s') (Suc n)"
proof (cases x)
  case (Append v)
  with assms(2) have a: "List_Add v l s = (None, l', s')"
    by (auto split: prod.splits option.splits)
  from assms(1) have ok: "list_ok l s" by (simp add: counted_def)
  note A = List_Add_ok [OF ok _ a assms(3), simplified]
  from assms(1) A show ?thesis
    by (simp add: counted_def)
next
  case (Remove p a)
  with assms(2) obtain m where a: "List_mark p a l s = Inr (m, l', s')"
    by (auto split: sum.splits)
  from assms(1) have ok: "list_ok l s" by (simp add: counted_def)
  obtain es' f m' where me: "mark_entries p a False (list_entries l s) = (es', f, m')"
    by (cases "mark_entries p a False (list_entries l s)") auto
  from List_mark_ok [OF ok me] a have
    *: "m' = m" "list_ok l' s'" "list_entries l' s' = es'"
    "num_values_total (head l') = num_values_total (head l)"
    "num_values_deleted (head l') = num_values_deleted (head l) + of_nat (length m)"
    by auto
  from assms(1) * mark_entries_length [OF me] mark_entries_deleted [OF me]
  show ?thesis
    by (simp add: counted_def)
next
  case Flush
  with assms(2) have a: "List_Flush l s = (None, l', s')"
    by (auto split: prod.splits option.splits)
  from assms(1) have ok: "list_ok l s" by (simp add: counted_def)
  note A = List_Flush_ok [OF ok a assms(3)]
  from assms(1) A show ?thesis
    by (simp add: counted_def)
qed

lemma run_counted:
  assumes "counted (l, s) n" "run xs (l, s) = Inr (l', s')" "length (blocks s') \<le> 2 ^ 28"
  shows "counted (l', s') (n + length xs)"
  using assms
proof (induction xs arbitrary: l s n)
  case Nil
  then show ?case by simp
next
  case (Cons x xs)
  then obtain l1 s1 where a: "step x (l, s) = Inr (l1, s1)" "run xs (l1, s1) = Inr (l', s')"
    by (auto split: sum.splits)
  have "length (blocks s1) \<le> 2 ^ 28"
    using run_mono [OF a(2)] Cons.prems(3) by simp
  from step_counted [OF Cons.prems(1) a(1) this]
  have "counted (l1, s1) (Suc n)" .
  from Cons.IH [OF this a(2) Cons.prems(3)] show ?case by simp
qed

lemma length_live: "length (live es) + length (filter snd es) = length es"
  by (induction es) (auto simp: live_def)

lemma counted_counters:
  assumes "counted (l, s) n" "n < 2 ^ 32"
  shows "num_values_deleted (head l) \<le> num_values_total (head l)"
    and "iterate l s = Inr (live (list_entries l s))"
    and "unat (num_values_total (head l)) - unat (num_values_deleted (head l))
         = length (live (list_entries l s))"
proof -
  let ?E = "list_entries l s"
  have le: "length ?E < 2 ^ 32" using assms by (simp add: counted_def)
  have fl: "length (filter snd ?E) \<le> length ?E" by simp
  have fl': "length (filter snd ?E) < 2 ^ 32"
    by (rule le_less_trans [OF length_filter_le le])
  have t: "unat (num_values_total (head l)) = length ?E"
    using assms(1) le by (simp add: counted_def unat_of_nat)
  have d: "unat (num_values_deleted (head l)) = length (filter snd ?E)"
    using assms(1) fl' by (simp add: counted_def unat_of_nat)
  show "num_values_deleted (head l) \<le> num_values_total (head l)"
    using t d fl by (simp add: word_le_nat_alt)
  show "iterate l s = Inr (live ?E)"
    using assms(1) by (simp add: counted_def iterate_ok)
  show "unat (num_values_total (head l)) - unat (num_values_deleted (head l))
         = length (live ?E)"
    using t d length_live [of ?E] by simp
qed

lemma counted_new: "counted (new_List, s) 0"
  using list_ok_new [of s] by (simp add: counted_def new_List_def)

definition shard_ok :: "Shard \<Rightarrow> bool" where
  "shard_ok sh \<longleftrightarrow> (\<forall>k l. table sh k = Some l \<longrightarrow> list_ok l (store sh))"

definition values_of :: "bytes \<Rightarrow> Shard \<Rightarrow> bytes list" where
  "values_of k sh =
     (case table sh k of None \<Rightarrow> [] | Some l \<Rightarrow> live (list_entries l (store sh)))"

lemma Shard_get_ok: "shard_ok sh \<Longrightarrow> Shard_get k sh = Inr (values_of k sh)"
  by (auto simp: shard_ok_def Shard_get_def values_of_def iterate_ok split: option.splits)

lemma Shard_put_ok:
  assumes ok: "shard_ok sh"
    and key: "length k \<le> max_key_size"
    and fits: "entry_size v \<le> store_block_size (store sh)"
    and bound: "length (blocks (store sh)) < 2 ^ 28"
  shows "\<exists>sh'. Shard_put k v sh = (None, sh') \<and> shard_ok sh'
           \<and> values_of k sh' = values_of k sh @ [v]
           \<and> (\<forall>k'. k' \<noteq> k \<longrightarrow> values_of k' sh' = values_of k' sh)
           \<and> store_block_size (store sh') = store_block_size (store sh)
           \<and> length (blocks (store sh')) \<le> length (blocks (store sh)) + 1"
proof -
  define l where "l = (case table sh k of None \<Rightarrow> new_List | Some l0 \<Rightarrow> l0)"
  define t where "t = (case table sh k of None \<Rightarrow> (table sh)(k \<mapsto> new_List) | Some l0 \<Rightarrow> table sh)"
  have g: "getUniqueOrCreate k (table sh) = Inr (l, t)"
    using key by (simp add: getUniqueOrCreate_def l_def t_def split: option.split)
  have lok: "list_ok l (store sh)"
    using ok by (auto simp: l_def shard_ok_def list_ok_new split: option.split)
  have lv: "live (list_entries l (store sh)) = values_of k sh"
    by (simp add: l_def values_of_def list_ok_new split: option.split)
  obtain e l' s' where a: "List_Add v l (store sh) = (e, l', s')"
    by (cases "List_Add v l (store sh)") auto
  have b': "length (blocks s') \<le> 2 ^ 28"
    using List_Add_grows [OF a] bound by simp
  note A = List_Add_ok [OF lok disjI1 [OF fits] a b']
  from A(4) obtain extra where ex: "blocks s' = blocks (store sh) @ extra" by blast
  define sh' where "sh' = \<lparr>table = t(k \<mapsto> l'), store = s'\<rparr>"
  have r: "Shard_put k v sh = (None, sh')"
    using A(1) by (simp add: Shard_put_def g a sh'_def)
  have other: "table sh' k' = table sh k'" if "k' \<noteq> k" for k'
    using that by (simp add: sh'_def t_def split: option.split)
  have ok': "shard_ok sh'"
    unfolding shard_ok_def
  proof (intro allI impI)
    fix k' l2 assume h: "table sh' k' = Some l2"
    show "list_ok l2 (store sh')"
    proof (cases "k' = k")
      case True
      with h A(2) show ?thesis by (simp add: sh'_def)
    next
      case False
      with h other have "table sh k' = Some l2" by simp
      with ok have "list_ok l2 (store sh)" by (simp add: shard_ok_def)
      from list_ok_frame(1) [OF this ex] show ?thesis by (simp add: sh'_def)
    qed
  qed
  have vk: "values_of k sh' = values_of k sh @ [v]"
    using A(3) lv by (simp add: values_of_def sh'_def live_def)
  have vo: "values_of k' sh' = values_of k' sh" if "k' \<noteq> k" for k'
  proof (cases "table sh k'")
    case None
    with other [OF that] show ?thesis by (simp add: values_of_def)
  next
    case (Some l2)
    with ok have "list_ok l2 (store sh)" by (simp add: shard_ok_def)
    from list_ok_frame(2) [OF this ex] Some other [OF that] show ?thesis
      by (simp add: values_of_def sh'_def)
  qed
  from r ok' vk vo A(5) List_Add_grows [OF a] show ?thesis
    by (intro exI [of _ sh']) (simp add: sh'_def)
qed

lemma put_all_ok:
  assumes "shard_ok sh"
    and "\<forall>kv\<in>set kvs. length (fst kv) \<le> max_key_size
                       \<and> entry_size (snd kv) \<le> store_block_size (store sh)"
    and "length (blocks (store sh)) + length kvs \<le> 2 ^ 28"
  shows "\<exists>sh'. put_all kvs sh = (None, sh') \<and> shard_ok sh'
           \<and> (\<forall>K. values_of K sh'
                     = values_of K sh @ map snd (filter (\<lambda>kv. fst kv = K) kvs))"
  using assms
proof (induction kvs arbitrary: sh)
  case Nil
  then show ?case by simp
next
  case (Cons kv kvs)
  obtain k v where kv: "kv = (k, v)" by (cases kv)
  have b: "length (blocks (store sh)) < 2 ^ 28" using Cons.prems(3) by simp
  from Shard_put_ok [OF Cons.prems(1) _ _ b, of k v] Cons.prems(2) kv
  obtain sh1 where s1: "Shard_put k v sh = (None, sh1)" "shard_ok sh1"
    "values_of k sh1 = values_of k sh @ [v]"
    "\<forall>k'. k' \<noteq> k \<longrightarrow> values_of k' sh1 = values_of k' sh"
    "store_block_size (store sh1) = store_block_size (store sh)"
    "length (blocks (store sh1)) \<le> length (blocks (store sh)) + 1"
    by auto
  have p2: "\<forall>kv\<in>set kvs. length (fst kv) \<le> max_key_size
                       \<and> entry_size (snd kv) \<le> store_block_size (store sh1)"
    using Cons.prems(2) s1(5) by simp
  have p3: "length (blocks (store sh1)) + length kvs \<le> 2 ^ 28"
    using Cons.prems(3) s1(6) by simp
  from Cons.IH [OF s1(2) p2 p3] obtain sh' where
    s': "put_all kvs sh1 = (None, sh')" "shard_ok sh'"
    "\<forall>K. values_of K sh' = values_of K sh1 @ map snd (filter (\<lambda>kv. fst kv = K) kvs)"
    by blast
  have "put_all (kv # kvs) sh = (None, sh')"
    using s1(1) s'(1) by (simp add: kv)
  moreover have "values_of K sh' = values_of K sh @ map snd (filter (\<lambda>kv. fst kv = K) (kv # kvs))"
    for K
    using s'(3) s1(3,4) by (cases "K = k") (auto simp: kv)
  ultimately show ?case using s'(2) by blast
qed

lemma live_Cons: "live ((v, d) # es) = (if d then live es else v # live es)"
  by (simp add: live_def)

lemma mark_entries_all:
  "mark_entries sel True found es
     = (map (\<lambda>e. (fst e, snd e \<or> sel (fst e))) es,
        found \<or> (\<exists>e\<in>set es. \<not> snd e \<and> sel (fst e)),
        filter sel (live es))"
  by (induction es arbitrary: found) (auto simp: live_def)

lemma live_mark_all:
  "live (map (\<lambda>e. (fst e, snd e \<or> sel (fst e))) es) = filter (\<lambda>v. \<not> sel v) (live es)"
  by (induction es) (auto simp: live_def)

lemma mark_entries_found:
  "mark_entries sel False True es = (es, True, [])"
  by (induction es) auto

lemma mark_entries_first:
  "mark_entries sel False False es = (es', f, m)
     \<Longrightarrow> m = take 1 (filter sel (live es))
         \<and> live es' = (case m of [] \<Rightarrow> live es | v # vs \<Rightarrow> remove1 v (live es))"
proof (induction es arbitrary: es' f m)
  case Nil
  then show ?case by simp
next
  case (Cons e es)
  obtain v d where e: "e = (v, d)" by (cases e)
  show ?case
  proof (cases "\<not> d \<and> sel v")
    case True
    with Cons.prems e show ?thesis
      by (auto simp: mark_entries_found live_Cons)
  next
    case False
    obtain es1 f1 m1 where r: "mark_entries sel False False es = (es1, f1, m1)"
      by (cases "mark_entries sel False False es") auto
    from Cons.IH [OF r] have
      IH: "m1 = take 1 (filter sel (live es))"
      "live es1 = (case m1 of [] \<Rightarrow> live es | v # vs \<Rightarrow> remove1 v (live es))"
      by simp_all
    from False Cons.prems e r have eq: "es' = (v, d) # es1" "m = m1" by auto
    have m1: "m1 = [] \<or> (\<exists>w. m1 = [w] \<and> sel w)"
    proof (cases "filter sel (live es)")
      case Nil
      with IH(1) show ?thesis by simp
    next
      case (Cons w ws)
      then have "sel w" by (metis filter_eq_ConsD)
      with IH(1) Cons show ?thesis by simp
    qed
    show ?thesis
    proof (cases d)
      case True
      have "m = take 1 (filter sel (live (e # es)))"
        using eq IH(1) True by (simp add: e live_Cons)
      moreover have "live es' = (case m of [] \<Rightarrow> live (e # es) | v # vs \<Rightarrow> remove1 v (live (e # es)))"
        using eq IH(2) True by (simp add: e live_Cons split: list.split)
      ultimately show ?thesis by simp
    next
      case nd: False
      with False have ns: "\<not> sel v" by simp
      have "m = take 1 (filter sel (live (e # es)))"
        using eq IH(1) nd ns by (simp add: e live_Cons)
      moreover have "live es' = (case m of [] \<Rightarrow> live (e # es) | v # vs \<Rightarrow> remove1 v (live (e # es)))"
        using m1 eq IH(2) nd ns by (auto simp: e live_Cons split: list.split)
      ultimately show ?thesis by simp
    qed
  qed
qed

lemma Shard_replace_ok:
  assumes tb: "table sh key = Some l" and ok: "list_ok l (store sh)"
    and res: "Shard_replace key f a sh = Inr (n, sh')"
    and bound: "length (blocks (store sh')) \<le> 2 ^ 28"
    and me: "mark_entries (\<lambda>v. f v \<noteq> []) a False (list_entries l (store sh)) = (es', fnd, m)"
  shows "\<exists>l'. table sh' key = Some l' \<and> list_ok l' (store sh')
           \<and> list_entries l' (store sh') = es' @ map (\<lambda>v. (f v, False)) m
           \<and> n = length m
           \<and> Shard_get key sh' = Inr (live es' @ map f m)"
proof -
  from List_mark_ok [OF ok me] obtain l1 s1 where
    m1: "List_mark (\<lambda>v. f v \<noteq> []) a l (store sh) = Inr (m, l1, s1)"
    "list_ok l1 s1" "list_entries l1 s1 = es'"
    by blast
  obtain e2 l2 s2 where a2: "add_all (map f m) l1 s1 = (e2, l2, s2)"
    by (cases "add_all (map f m) l1 s1") auto
  have e2: "e2 = None" and sh': "sh' = \<lparr>table = (table sh)(key \<mapsto> l2), store = s2\<rparr>"
    and n: "n = length m"
    using res tb m1(1) a2 by (auto simp: Shard_replace_def split: option.splits)
  have b2: "length (blocks s2) \<le> 2 ^ 28" using bound by (simp add: sh')
  from add_all_ok [OF m1(2) a2 b2] e2 have
    A: "list_ok l2 s2" "list_entries l2 s2 = es' @ map (\<lambda>v. (v, False)) (map f m)"
    using m1(3) by simp_all
  have lv: "live (map (\<lambda>v. (f v, False)) m) = map f m"
    by (induction m) (auto simp: live_def)
  have g: "Shard_get key sh' = Inr (live es' @ map f m)"
    using iterate_ok [OF A(1)] A(2) lv by (simp add: Shard_get_def sh' comp_def)
  from A g n show ?thesis
    by (intro exI [of _ l2]) (simp add: sh' comp_def)
qed

lemma mark_entries_tombs:
  "mark_entries sel a found es = (es', f, m)
     \<Longrightarrow> map fst es' = map fst es \<and> (\<forall>i<length es. snd (es ! i) \<longrightarrow> snd (es' ! i))"
proof (induction es arbitrary: found es' f m)
  case Nil
  then show ?case by simp
next
  case (Cons e es)
  then show ?case
    by (cases e) (auto split: prod.splits if_splits simp: nth_Cons split: nat.splits)
qed

lemma List_Add_within_block:
  assumes "List_Add v l s = (None, l', s')"
  shows "(let b0 = (case block l of None \<Rightarrow> allocate_block s | Some b \<Rightarrow> b) in
          if next_offset b0 + entry_size v \<le> block_size b0
          then s' = s \<and> block l' = Some (b0\<lparr>entries := entries b0 @ [(v, False)]\<rparr>)
          else blocks s' = blocks s @ [b0]
               \<and> block l' = Some \<lparr>block_size = store_block_size s, entries = [(v, False)]\<rparr>
               \<and> entry_size v \<le> store_block_size s)"
  using assms
  by (auto simp: List_Add_def Let_def TryAdd_def commit_block_def Store_append_def
      allocate_block_def next_offset_def incr_total_def block_ids_Add_def
      split: option.splits sum.splits if_splits prod.splits)

section \<open>Properties of \<open>Table::close\<close>\<close>

text \<open>
  \<open>written_keys\<close> are the keys of the entries whose list could be locked and is
  not empty, in the order of the walk; \<open>records_of\<close> are the records of a keys
  file for a sequence of keys with their heads.
\<close>

definition written_keys :: "('l \<Rightarrow> bool) \<Rightarrow> (bytes \<times> 'l \<times> lock_state) list \<Rightarrow> bytes list" where
  "written_keys is_empty es =
     map fst (filter (\<lambda>e. snd (snd e) = Unlocked \<and> \<not> is_empty (fst (snd e))) es)"

definition records_of :: "(bytes \<times> 'h) list \<Rightarrow> 'h item list" where
  "records_of recs = map (\<lambda>r. Record (fst r) (snd r)) recs"

lemma System_write_None: "System_write x file None = Inr (file @ [x], None)"
  by (simp add: System_write_def)

lemma close_entries_None:
  assumes "close_entries is_empty flush chead es (dn, fl, written, st, budget)
           = (None, dn', fl', written', st', budget')"
    and "written < 2 ^ 32"
  shows "\<exists>recs. fl' = fl @ records_of recs
           \<and> map fst recs = written_keys is_empty es
           \<and> written' = (written + length recs) mod 2 ^ 32"
  using assms
proof (induction es arbitrary: dn fl written st budget)
  case Nil
  then show ?case by (auto simp: written_keys_def records_of_def intro: exI [of _ "[]"])
next
  case (Cons e es)
  obtain key lst lk where e: "e = (key, lst, lk)" by (cases e)
  show ?case
  proof (cases "tryLockUnique lk \<and> \<not> is_empty lst")
    case True
    from Cons.prems True e obtain lst' st1 fl1 budget1 where
      f: "flush lst st = (None, lst', st1)"
      and w: "writeEntryToFile (key, chead lst') fl budget = Inr (fl1, budget1)"
      and r: "close_entries is_empty flush chead es
                (dn @ [(key, lst', lk)], fl1, (written + 1) mod 2 ^ 32, st1, budget1)
              = (None, dn', fl', written', st', budget')"
      by (auto split: prod.splits option.splits sum.splits)
    from w have f1: "fl1 = fl @ [Record key (chead lst')]"
      by (auto simp: writeEntryToFile_def System_write_def
          split: if_splits option.splits nat.splits)
    have "(written + 1) mod 2 ^ 32 < (2 ^ 32 :: nat)" by simp
    from Cons.IH [OF r this] obtain recs where
      IH: "fl' = fl1 @ records_of recs" "map fst recs = written_keys is_empty es"
      "written' = ((written + 1) mod 2 ^ 32 + length recs) mod 2 ^ 32"
      by blast
    have "written' = (written + length ((key, chead lst') # recs)) mod 2 ^ 32"
      using IH(3) by (simp add: mod_simps)
    with IH(1,2) f1 True e show ?thesis
      by (intro exI [of _ "(key, chead lst') # recs"])
        (simp add: records_of_def written_keys_def tryLockUnique_def)
  next
    case False
    with Cons.prems e have
      r: "close_entries is_empty flush chead es
            (dn @ [(key, lst, lk)], fl, written, st, budget)
          = (None, dn', fl', written', st', budget')"
      by (auto split: if_splits)
    from Cons.IH [OF r Cons.prems(2)] False e show ?thesis
      by (auto simp: written_keys_def tryLockUnique_def)
  qed
qed

lemma read_entries_records:
  "read_entries (length recs) (records_of recs @ more_items) = Inr recs"
  by (induction recs) (auto simp: records_of_def)

lemma emplace_all_keys:
  "fst ` set (emplace_all list_of_head es m) = fst ` set m \<union> fst ` set es"
proof (induction es arbitrary: m)
  case Nil
  then show ?case by simp
next
  case (Cons e es)
  obtain k h where e: "e = (k, h)" by (cases e)
  show ?case
  proof (cases "k \<in> fst ` set m")
    case True
    then show ?thesis using Cons.IH [of m] by (auto simp: e)
  next
    case False
    then show ?thesis
      using Cons.IH [of "m @ [(k, list_of_head h, Unlocked)]"] by (auto simp: e)
  qed
qed

lemma length_written_keys: "length (written_keys is_empty es) \<le> length es"
  by (simp add: written_keys_def)

lemma System_write_Inr:
  "System_write x file budget = Inr (file', budget') \<Longrightarrow> file' = file @ [x]"
  by (auto simp: System_write_def split: option.splits nat.splits)

lemma Table_close_done:
  fixes chead :: "'l \<Rightarrow> 'h"
  assumes res: "Table_close is_empty flush chead budget t fs st = (None, t', fs', st')"
    and path: "table_path t \<noteq> []"
    and len: "length (table_map t) < 2 ^ 32"
  shows "\<exists>recs. fs' (table_path t) = Some (Count (length recs) # records_of recs)
           \<and> map fst recs = written_keys is_empty (table_map t)
           \<and> fs' (table_path t @ ''.old'') = None
           \<and> table_map t' = [] \<and> table_path t' = []"
proof -
  let ?p = "table_path t"
  let ?n = "length (table_map t)"
  have ne: "?p @ ''.old'' \<noteq> ?p" by simp
  have nm: "?n mod 2 ^ 32 = ?n" using len by simp
  from res path obtain original where o: "fs ?p = Some original"
    by (auto simp: Table_close_def Let_def split: option.splits)
  have "\<exists>file0 budget0. System_write (Count ?n) ([] :: 'h item list) budget = Inr (file0, budget0)"
  proof (cases "System_write (Count ?n) ([] :: 'h item list) budget")
    case (Inl err)
    from nm Inl path o res show ?thesis by (simp add: Table_close_def Let_def)
  next
    case (Inr x)
    then show ?thesis by (cases x) simp
  qed
  then obtain file0 budget0 where
    w0: "System_write (Count ?n) ([] :: 'h item list) budget = Inr (file0, budget0)"
    by blast
  have f0: "file0 = [Count ?n]" using System_write_Inr [OF w0] by simp
  obtain e1 done1 file1 written st1 budget1 where
    ce: "close_entries is_empty flush chead (table_map t) ([], file0, 0, st, budget0)
         = (e1, done1, file1, written, st1, budget1)"
    by (metis prod_cases6)
  have e1: "e1 = None"
    using nm w0 ce path o res
    by (auto simp: Table_close_def Let_def split: option.splits sum.splits)
  have "(0::nat) < 2 ^ 32" by simp
  from close_entries_None [OF ce [unfolded e1] this] obtain recs where
    recs: "file1 = file0 @ records_of recs"
    "map fst recs = written_keys is_empty (table_map t)"
    "written = (0 + length recs) mod 2 ^ 32"
    by blast
  have lr: "length recs \<le> ?n"
    using length_written_keys [of is_empty "table_map t"] recs(2)
    by (metis length_map)
  then have w: "written = length recs" using recs(3) len by simp
  have b1: "budget1 \<noteq> Some 0 \<or> written = ?n"
    using nm w0 ce e1 path o res
    by (auto simp: Table_close_def Let_def
        split: option.splits sum.splits nat.splits if_splits)
  have file2: "(if written \<noteq> ?n
                then (case budget1 of Some 0 \<Rightarrow> Inl IoError | _ \<Rightarrow> Inr (file1[0 := Count written]))
                else Inr file1)
               = Inr (Count (length recs) # records_of recs)"
    using b1 w recs(1) f0 by (auto split: option.splits nat.splits)
  define fs2 where "fs2 = ((fs(?p @ ''.old'' \<mapsto> original))(?p := None))(?p \<mapsto> [])"
  define fs3 where "fs3 = (fs2(?p \<mapsto> Count (length recs) # records_of recs))(?p @ ''.old'' := None)"
  have "Table_close is_empty flush chead budget t fs st
        = (None, \<lparr>table_path = [], table_map = []\<rparr>, fs3, st1)"
    using nm w0 ce file2 path o
    by (simp add: Table_close_def Let_def e1 fs2_def fs3_def)
  with res have "t' = \<lparr>table_path = [], table_map = []\<rparr>" "fs' = fs3"
    by simp_all
  with recs(2) ne show ?thesis
    by (intro exI [of _ recs]) (simp add: fs3_def)
qed


lemma Table_open_records:
  assumes "fs file = Some (Count (length recs) # records_of recs)"
  shows "\<exists>t. Table_open list_of_head file fs = Inr t \<and> table_path t = file
           \<and> fst ` set (table_map t) = fst ` set recs"
  using assms read_entries_records [of recs "[]"]
  by (simp add: Table_open_def emplace_all_keys)


lemma written_keys_unlocked:
  assumes "distinct (map fst es)" "(k, l, lk) \<in> set es" "lk \<noteq> Unlocked \<or> is_empty l"
  shows "k \<notin> set (written_keys is_empty es)"
proof
  assume "k \<in> set (written_keys is_empty es)"
  then obtain l2 lk2 where h: "(k, l2, lk2) \<in> set es" "lk2 = Unlocked" "\<not> is_empty l2"
    by (auto simp: written_keys_def)
  from assms(1) assms(2) h(1) have "(l, lk) = (l2, lk2)"
    by (meson eq_key_imp_eq_value)
  with assms(3) h show False by auto
qed

lemma written_keys_iff:
  "k \<in> set (written_keys is_empty es)
     \<longleftrightarrow> (\<exists>l. (k, l, Unlocked) \<in> set es \<and> \<not> is_empty l)"
  by (auto simp: written_keys_def intro: rev_image_eqI)





section \<open>States used in the examples\<close>

text \<open>
  A store with blocks of 8 bytes and no block yet; a store with blocks of
  8 bytes that already holds \<open>2^28\<close> blocks (of other lists), so that the next id
  it assigns is \<open>2^28\<close>; and a list with the values \<open>[1]\<close> and \<open>[2]\<close> in its tail
  block, as two \<open>put\<close> calls leave it.
\<close>

definition small_store :: Store where
  "small_store = \<lparr>store_block_size = 8, blocks = []\<rparr>"

definition big_store :: Store where
  "big_store = \<lparr>store_block_size = 8,
                 blocks = replicate (2 ^ 28) \<lparr>block_size = 8, entries = []\<rparr>\<rparr>"

definition two_values :: List_t where
  "two_values =
     \<lparr>head = \<lparr>num_values_total = 2, num_values_deleted = 0, block_ids = new_UintVector\<rparr>,
      block = Some \<lparr>block_size = 8, entries = [([1], False), ([2], False)]\<rparr>\<rparr>"

lemma big_store_simps:
  "length (blocks big_store) = 268435456" "store_block_size big_store = 8"
  by (simp_all add: big_store_def)

lemmas list_eval =
  List_Add_def TryAdd_def next_offset_def entry_size_def allocate_block_def
  commit_block_def Store_append_def block_ids_Add_def incr_total_def new_List_def
  List_Flush_def

text \<open>
  Modelled from the spec: \<open>List::empty()\<close> (\<open>List.hpp\<close> is not among the sources).
  A list ``may become empty (all values tombstoned)'': it is empty when
  \<open>num_values_total - num_values_deleted\<close> is zero.
\<close>

definition List_empty :: "List_t \<Rightarrow> bool" where
  "List_empty l \<longleftrightarrow> num_values_total (head l) = num_values_deleted (head l)"

text \<open>
  A table with three keys: the list of \<open>[1]\<close> holds two values and is not locked,
  the list of \<open>[2]\<close> is empty, and the list of \<open>[3]\<close> holds two values and is
  locked by a reader.  Its keys file holds the records of an earlier close.
\<close>

definition three_keys :: "List_t Table" where
  "three_keys =
     \<lparr>table_path = ''p.keys'',
      table_map = [([1], two_values, Unlocked), ([2], new_List, Unlocked),
                   ([3], two_values, LockedShared 1)]\<rparr>"

definition old_keys_file :: "Head item list" where
  "old_keys_file = [Count 1, Record [3] (head new_List)]"


section \<open>The claims\<close>

subsection \<open>C10: version check\<close>

text \<open>
  C10.  The version check passes exactly when the recorded major version equals
  the library's \<open>MAJOR\<close> and the recorded minor version is at most the library's
  \<open>MINOR\<close>; in every other case it fails (the failed \<open>mt::check\<close>).
\<close>

theorem checkCompatibility_iff:
  "(checkCompatibility MAJOR MINOR major minor = Inr ()) = (major = MAJOR \<and> minor \<le> MINOR)
   \<and> (checkCompatibility MAJOR MINOR major minor = Inl CheckFailed)
       = (\<not> (major = MAJOR \<and> minor \<le> MINOR))"
  by (simp add: checkCompatibility_def)

theorem checkCompatibility_iff_witness:
  "checkCompatibility 0 3 0 2 = Inr ()
   \<and> checkCompatibility 0 3 0 4 = Inl CheckFailed
   \<and> checkCompatibility 0 3 1 0 = Inl CheckFailed"
  using checkCompatibility_iff [of 0 3 0 2] checkCompatibility_iff [of 0 3 0 4]
    checkCompatibility_iff [of 0 3 1 0]
  by simp

subsection \<open>C7: hash dispatch\<close>

text \<open>
  C7.  With at least one partition, a single-key operation on key \<open>K\<close> is applied
  to the partition with index \<open>fnv1aHash K mod num_partitions\<close> and to no other:
  the lookup returns that partition, the operation's result is the result on that
  partition, and every other partition is left as it was.  The index is a function
  of the key bytes and the number of partitions only: two maps with the same number
  of partitions dispatch the same key to the same index.
\<close>

theorem getPartition_dispatch:
  assumes "partitions \<noteq> []"
  shows "getPartitionIndex fnv1aHash partitions key
           = Inr (fnv1aHash key mod length partitions)
       \<and> getPartition fnv1aHash partitions key
           = Inr (partitions ! (fnv1aHash key mod length partitions))
       \<and> onPartition fnv1aHash partition_op partitions key arg
           = Inr (fst (partition_op key arg (partitions ! (fnv1aHash key mod length partitions))),
                  partitions[fnv1aHash key mod length partitions
                    := snd (partition_op key arg
                              (partitions ! (fnv1aHash key mod length partitions)))])
       \<and> (\<forall>r ps' j. onPartition fnv1aHash partition_op partitions key arg = Inr (r, ps')
             \<longrightarrow> j \<noteq> fnv1aHash key mod length partitions \<longrightarrow> ps' ! j = partitions ! j)
       \<and> (\<forall>others :: 'p list. length others = length partitions
             \<longrightarrow> getPartitionIndex fnv1aHash others key
                 = getPartitionIndex fnv1aHash partitions key)"
proof -
  have idx: "getPartitionIndex fnv1aHash partitions key
          = Inr (fnv1aHash key mod length partitions)"
    using assms by (simp add: getPartitionIndex_def)
  have part: "getPartition fnv1aHash partitions key
          = Inr (partitions ! (fnv1aHash key mod length partitions))"
    using idx by (simp add: getPartition_def)
  have step: "onPartition fnv1aHash partition_op partitions key arg
           = Inr (fst (partition_op key arg (partitions ! (fnv1aHash key mod length partitions))),
                  partitions[fnv1aHash key mod length partitions
                    := snd (partition_op key arg
                              (partitions ! (fnv1aHash key mod length partitions)))])"
    using idx by (simp add: onPartition_def split: prod.split)
  have frame: "ps' ! j = partitions ! j"
    if "onPartition fnv1aHash partition_op partitions key arg = Inr (r, ps')"
      and "j \<noteq> fnv1aHash key mod length partitions" for r ps' j
    using that step by auto
  have stable: "getPartitionIndex fnv1aHash others key
          = getPartitionIndex fnv1aHash partitions key"
    if "length others = length partitions" for others :: "'p list"
    using that assms by (auto simp: getPartitionIndex_def)
  from idx part step frame stable show ?thesis by blast
qed

theorem getPartition_dispatch_witness:
  "[10, 20, 30 :: nat] \<noteq> []
   \<and> fnv1aHash32 [97] mod length [10, 20, 30 :: nat] = 1
   \<and> getPartitionIndex fnv1aHash32 [10, 20, 30 :: nat] [97] = Inr 1
   \<and> getPartition fnv1aHash32 [10, 20, 30 :: nat] [97] = Inr 20
   \<and> onPartition fnv1aHash32 (\<lambda>k a p. (p, p + a)) [10, 20, 30 :: nat] [97] (5 :: nat)
       = Inr (20, [10, 25, 30])
   \<and> getPartitionIndex fnv1aHash32 [7, 8, 9 :: nat] [97]
       = getPartitionIndex fnv1aHash32 [10, 20, 30 :: nat] [97]"
proof -
  have ne: "[10, 20, 30 :: nat] \<noteq> []" by simp
  have h: "fnv1aHash32 [97] mod length [10, 20, 30 :: nat] = 1"
    by (simp add: fnv1aHash32_def)
  note T = getPartition_dispatch [OF ne, of fnv1aHash32 "[97]" "\<lambda>k a p. (p, p + a)" 5]
  from T have "\<forall>others :: nat list. length others = length [10, 20, 30 :: nat]
      \<longrightarrow> getPartitionIndex fnv1aHash32 others [97]
          = getPartitionIndex fnv1aHash32 [10, 20, 30 :: nat] [97]"
    by blast
  from this [rule_format, of "[7, 8, 9]"]
  have s: "getPartitionIndex fnv1aHash32 [7, 8, 9 :: nat] [97]
       = getPartitionIndex fnv1aHash32 [10, 20, 30 :: nat] [97]"
    by simp
  from T [THEN conjunct1] have a: "getPartitionIndex fnv1aHash32 [10, 20, 30 :: nat] [97] = Inr 1"
    using h by simp
  from T [THEN conjunct2, THEN conjunct1]
  have b: "getPartition fnv1aHash32 [10, 20, 30 :: nat] [97] = Inr 20"
    using h by simp
  from T [THEN conjunct2, THEN conjunct2, THEN conjunct1]
  have c: "onPartition fnv1aHash32 (\<lambda>k a p. (p, p + a)) [10, 20, 30 :: nat] [97] (5 :: nat)
       = Inr (20, [10, 25, 30])"
    using h by simp
  from ne h a b c s show ?thesis by blast
qed

subsection \<open>C6: a rejected \<open>UintVector::add\<close>\<close>

lemmas uv_eval =
  add_def new_UintVector_def allocateMoreIfFull_def sub32_def empty_def N4_MAX_UINT_def
  writeUint_def writeUint32_def write_at_def varint_bytes.simps le32_bytes_def Let_def
  replicate_numeral readUint32_def unpack_def readUint_def byte_of_def

text \<open>
  On the branch for an empty vector a rejected \<open>add\<close> changes nothing that can be
  observed: the offset stays 0 and \<open>unpack\<close> still yields the empty sequence.
\<close>

lemma add_false_empty_unchanged:
  assumes "empty uv" and "add v uv = Inr (False, uv')"
  shows "offset uv' = offset uv \<and> take (offset uv') (data uv') = take (offset uv) (data uv)
         \<and> unpack uv' = unpack uv"
proof -
  have e: "empty (allocateMoreIfFull uv)"
    using assms(1) by (simp add: empty_def allocateMoreIfFull_def Let_def)
  have "uv' = allocateMoreIfFull uv"
    using assms(2) e by (auto simp: add_def Let_def split: if_splits option.splits)
  then show ?thesis
    using assms(1) e by (simp add: empty_def unpack_def)
qed

text \<open>
  On the branch for a non-empty vector the code has already executed
  \<open>offset_ -= sizeof prev_value\<close> when it finds the difference too large, and
  returns \<open>false\<close> without undoing it.
\<close>

lemma add_false_nonempty_offset:
  assumes "\<not> empty uv" and "add v uv = Inr (False, uv')"
  shows "offset uv' = sub32 (offset uv) 4"
proof -
  have e: "\<not> empty (allocateMoreIfFull uv)" "offset (allocateMoreIfFull uv) = offset uv"
    using assms(1) by (simp_all add: empty_def allocateMoreIfFull_def Let_def)
  show ?thesis
    using assms(2) e
    by (auto simp: add_def Let_def split: if_splits option.splits)
qed

text \<open>
  C6 (the code departs from the claim).  The vector that holds 1, 2, 3, 4 is built
  by four successful calls.  \<open>add(268435460)\<close> then returns \<open>false\<close>, because the
  difference \<open>2^28\<close> to the last value exceeds \<open>2^28 - 1\<close>; after the call the
  offset is 4 instead of 8 and \<open>unpack\<close> yields the empty sequence instead of
  1, 2, 3, 4.
\<close>

theorem add_false_changes_state:
  "add 1 new_UintVector
     = Inr (True, \<lparr>data = [1, 1, 0, 0, 0, 0, 0, 0], offset = 5, size = 8\<rparr>)
   \<and> add 2 \<lparr>data = [1, 1, 0, 0, 0, 0, 0, 0], offset = 5, size = 8\<rparr>
     = Inr (True, \<lparr>data = [1, 1, 2, 0, 0, 0, 0, 0, 0, 0, 0, 0], offset = 6, size = 12\<rparr>)
   \<and> add 3 \<lparr>data = [1, 1, 2, 0, 0, 0, 0, 0, 0, 0, 0, 0], offset = 6, size = 12\<rparr>
     = Inr (True, \<lparr>data = [1, 1, 1, 3, 0, 0, 0, 0, 0, 0, 0, 0, 0, 0, 0, 0, 0, 0],
                    offset = 7, size = 18\<rparr>)
   \<and> add 4 \<lparr>data = [1, 1, 1, 3, 0, 0, 0, 0, 0, 0, 0, 0, 0, 0, 0, 0, 0, 0],
              offset = 7, size = 18\<rparr>
     = Inr (True, \<lparr>data = [1, 1, 1, 1, 4, 0, 0, 0, 0, 0, 0, 0, 0, 0, 0, 0, 0, 0],
                    offset = 8, size = 18\<rparr>)
   \<and> unpack \<lparr>data = [1, 1, 1, 1, 4, 0, 0, 0, 0, 0, 0, 0, 0, 0, 0, 0, 0, 0],
               offset = 8, size = 18\<rparr>
     = Inr [1, 2, 3, 4]
   \<and> add 268435460 \<lparr>data = [1, 1, 1, 1, 4, 0, 0, 0, 0, 0, 0, 0, 0, 0, 0, 0, 0, 0],
                      offset = 8, size = 18\<rparr>
     = Inr (False, \<lparr>data = [1, 1, 1, 1, 4, 0, 0, 0, 0, 0, 0, 0, 0, 0, 0, 0, 0, 0],
                     offset = 4, size = 18\<rparr>)
   \<and> unpack \<lparr>data = [1, 1, 1, 1, 4, 0, 0, 0, 0, 0, 0, 0, 0, 0, 0, 0, 0, 0],
               offset = 4, size = 18\<rparr>
     = Inr []"
  by (simp add: uv_eval unpack_loop.simps)

subsection \<open>C4: a value lies within one block\<close>

text \<open>
  C4.  Every value that \<open>List::Add\<close> accepts is stored as one entry of the tail
  block: its header and bytes occupy the bytes from the former \<open>next_offset\<close> up
  to the new one, which is at most \<open>block_size\<close>.  If the value fits into the
  current tail block (a new empty one when the list has none), nothing is
  committed and it follows the entries already there; if it does not fit, that
  block is committed to the store as it is and the value is the first entry, at
  offset 0, of a fresh block.
\<close>

theorem Add_keeps_value_in_one_block:
  assumes "List_Add v l s = (None, l', s')"
  shows "\<exists>b' before. block l' = Some b' \<and> entries b' = before @ [(v, False)]
           \<and> next_offset b' = next_offset (b'\<lparr>entries := before\<rparr>) + entry_size v
           \<and> next_offset b' \<le> block_size b'
           \<and> (let b0 = (case block l of None \<Rightarrow> allocate_block s | Some b \<Rightarrow> b) in
                if next_offset b0 + entry_size v \<le> block_size b0
                then s' = s \<and> before = entries b0 \<and> block_size b' = block_size b0
                else blocks s' = blocks s @ [b0] \<and> before = []
                     \<and> block_size b' = store_block_size s)"
proof -
  define b0 where "b0 = (case block l of None \<Rightarrow> allocate_block s | Some b \<Rightarrow> b)"
  note w = List_Add_within_block [OF assms, unfolded Let_def, folded b0_def]
  show ?thesis
  proof (cases "next_offset b0 + entry_size v \<le> block_size b0")
    case True
    with w have "s' = s" "block l' = Some (b0\<lparr>entries := entries b0 @ [(v, False)]\<rparr>)"
      by simp_all
    with True show ?thesis
      unfolding Let_def b0_def [symmetric]
      by (intro exI [of _ "b0\<lparr>entries := entries b0 @ [(v, False)]\<rparr>"] exI [of _ "entries b0"])
        (simp add: next_offset_def)
  next
    case False
    with w have "blocks s' = blocks s @ [b0]"
      "block l' = Some \<lparr>block_size = store_block_size s, entries = [(v, False)]\<rparr>"
      "entry_size v \<le> store_block_size s"
      by simp_all
    with False show ?thesis
      unfolding Let_def b0_def [symmetric]
      by (intro exI [of _ "\<lparr>block_size = store_block_size s, entries = [(v, False)]\<rparr>"]
          exI [of _ "[]"])
        (simp add: next_offset_def)
  qed
qed

theorem Add_keeps_value_in_one_block_witness:
  "List_Add [7, 8, 9, 10, 11, 12, 13]
     \<lparr>head = \<lparr>num_values_total = 2, num_values_deleted = 0, block_ids = new_UintVector\<rparr>,
      block = Some \<lparr>block_size = 8, entries = [([1, 2, 3], False), ([4, 5, 6], False)]\<rparr>\<rparr>
     small_store
   = (None,
      \<lparr>head = \<lparr>num_values_total = 3, num_values_deleted = 0,
                block_ids = \<lparr>data = [0, 0, 0, 0, 0, 0, 0, 0], offset = 5, size = 8\<rparr>\<rparr>,
       block = Some \<lparr>block_size = 8, entries = [([7, 8, 9, 10, 11, 12, 13], False)]\<rparr>\<rparr>,
      \<lparr>store_block_size = 8,
       blocks = [\<lparr>block_size = 8, entries = [([1, 2, 3], False), ([4, 5, 6], False)]\<rparr>]\<rparr>)
   \<and> (\<exists>b' before.
         Some \<lparr>block_size = 8, entries = [([7, 8, 9, 10, 11, 12, 13 :: byte], False)]\<rparr> = Some b'
         \<and> entries b' = before @ [([7, 8, 9, 10, 11, 12, 13], False)]
         \<and> next_offset b' \<le> block_size b' \<and> before = [])"
proof -
  have e: "List_Add [7, 8, 9, 10, 11, 12, 13]
     \<lparr>head = \<lparr>num_values_total = 2, num_values_deleted = 0, block_ids = new_UintVector\<rparr>,
      block = Some \<lparr>block_size = 8, entries = [([1, 2, 3], False), ([4, 5, 6], False)]\<rparr>\<rparr>
     small_store
   = (None,
      \<lparr>head = \<lparr>num_values_total = 3, num_values_deleted = 0,
                block_ids = \<lparr>data = [0, 0, 0, 0, 0, 0, 0, 0], offset = 5, size = 8\<rparr>\<rparr>,
       block = Some \<lparr>block_size = 8, entries = [([7, 8, 9, 10, 11, 12, 13], False)]\<rparr>\<rparr>,
      \<lparr>store_block_size = 8,
       blocks = [\<lparr>block_size = 8, entries = [([1, 2, 3], False), ([4, 5, 6], False)]\<rparr>]\<rparr>)"
    by (simp add: list_eval uv_eval small_store_def)
  from Add_keeps_value_in_one_block [OF e] obtain b' before where
    "Some \<lparr>block_size = 8, entries = [([7, 8, 9, 10, 11, 12, 13 :: byte], False)]\<rparr> = Some b'"
    "entries b' = before @ [([7, 8, 9, 10, 11, 12, 13], False)]"
    "next_offset b' \<le> block_size b'"
    by auto
  moreover from this have "before = []" by auto
  ultimately show ?thesis using e by blast
qed

subsection \<open>C3: a value larger than a block\<close>

text \<open>
  C3 (the code departs from the claim).  With blocks of 8 bytes the largest value
  that fits a block has 7 bytes.  The key \<open>[107]\<close> holds the value \<open>[1, 2, 3]\<close> in
  its tail block.  \<open>put\<close> of a value of 8 bytes is not rejected by a check:
  \<open>List::Add\<close> fails to add it to the tail block, commits the tail block to the
  store, records its id, takes a fresh block, fails again and ends in the failed
  \<open>assert(ok)\<close>.  The call leaves the list with one block id and an empty tail
  block and the store with one block more; the counters and the values an
  iterator yields are as before.
\<close>

theorem put_oversized_value:
  "max_value_size 8 = 7
   \<and> Shard_put [107] [1, 2, 3, 4, 5, 6, 7, 8]
       \<lparr>table = [[107] \<mapsto>
          \<lparr>head = \<lparr>num_values_total = 1, num_values_deleted = 0,
                    block_ids = new_UintVector\<rparr>,
           block = Some \<lparr>block_size = 8, entries = [([1, 2, 3], False)]\<rparr>\<rparr>],
        store = small_store\<rparr>
     = (Some AssertionFailed,
        \<lparr>table = [[107] \<mapsto>
           \<lparr>head = \<lparr>num_values_total = 1, num_values_deleted = 0,
                     block_ids = \<lparr>data = [0, 0, 0, 0, 0, 0, 0, 0], offset = 5, size = 8\<rparr>\<rparr>,
            block = Some \<lparr>block_size = 8, entries = []\<rparr>\<rparr>],
         store = \<lparr>store_block_size = 8,
                  blocks = [\<lparr>block_size = 8, entries = [([1, 2, 3], False)]\<rparr>]\<rparr>\<rparr>)
   \<and> Shard_get [107]
        \<lparr>table = [[107] \<mapsto>
           \<lparr>head = \<lparr>num_values_total = 1, num_values_deleted = 0,
                     block_ids = \<lparr>data = [0, 0, 0, 0, 0, 0, 0, 0], offset = 5, size = 8\<rparr>\<rparr>,
            block = Some \<lparr>block_size = 8, entries = []\<rparr>\<rparr>],
         store = \<lparr>store_block_size = 8,
                  blocks = [\<lparr>block_size = 8, entries = [([1, 2, 3], False)]\<rparr>]\<rparr>\<rparr>
     = Inr [[1, 2, 3]]"
proof -
  have "max_value_size 8 = 7"
    by (simp add: max_value_size_def eval_nat_numeral varint_bytes.simps)
  moreover have "Shard_put [107] [1, 2, 3, 4, 5, 6, 7, 8]
       \<lparr>table = [[107] \<mapsto>
          \<lparr>head = \<lparr>num_values_total = 1, num_values_deleted = 0,
                    block_ids = new_UintVector\<rparr>,
           block = Some \<lparr>block_size = 8, entries = [([1, 2, 3], False)]\<rparr>\<rparr>],
        store = small_store\<rparr>
     = (Some AssertionFailed,
        \<lparr>table = [[107] \<mapsto>
           \<lparr>head = \<lparr>num_values_total = 1, num_values_deleted = 0,
                     block_ids = \<lparr>data = [0, 0, 0, 0, 0, 0, 0, 0], offset = 5, size = 8\<rparr>\<rparr>,
            block = Some \<lparr>block_size = 8, entries = []\<rparr>\<rparr>],
         store = \<lparr>store_block_size = 8,
                  blocks = [\<lparr>block_size = 8, entries = [([1, 2, 3], False)]\<rparr>]\<rparr>\<rparr>)"
    by (simp add: Shard_put_def getUniqueOrCreate_def max_key_size_def list_eval uv_eval
        small_store_def)
  moreover have "Shard_get [107]
        \<lparr>table = [[107] \<mapsto>
           \<lparr>head = \<lparr>num_values_total = 1, num_values_deleted = 0,
                     block_ids = \<lparr>data = [0, 0, 0, 0, 0, 0, 0, 0], offset = 5, size = 8\<rparr>\<rparr>,
            block = Some \<lparr>block_size = 8, entries = []\<rparr>\<rparr>],
         store = \<lparr>store_block_size = 8,
                  blocks = [\<lparr>block_size = 8, entries = [([1, 2, 3], False)]\<rparr>]\<rparr>\<rparr>
     = Inr [[1, 2, 3]]"
    by (simp add: Shard_get_def iterate_def uv_eval unpack_loop.simps read_blocks.simps
        Store_read_def tail_values_def live_values_def)
  ultimately show ?thesis by blast
qed

subsection \<open>C1: values are yielded in the order of their puts\<close>

lemma iterate_committed_then_tail:
  assumes "list_ok l s"
  shows "iterate l s = Inr (live (committed_entries s (block_id_list l)) @ tail_values l)"
proof -
  have "tail_values l = live (tail_entries l)"
    by (simp add: tail_values_def tail_entries_def live_values_live split: option.split)
  then show ?thesis
    using iterate_ok [OF assms] by (simp add: list_entries_def all_entries_def)
qed

text \<open>
  Where the vector of block ids accepts every id, the values are yielded in the
  order of the calls.  Take a shard whose lists are well formed (\<open>shard_ok\<close>; a
  new shard is), and any sequence of \<open>put\<close> calls, on any keys, whose keys are at
  most \<open>max_key_size\<close> long and whose values fit an empty block, such that the
  store has room for one block per call within \<open>2^28\<close> blocks.  Then every call
  succeeds, and
  afterwards an iterator for any key \<open>K\<close> yields the values it yielded before
  followed by the values put under \<open>K\<close>, in the order of the calls; it reads them
  first from the committed blocks, in the order of their ids, and then from the
  tail block.
\<close>

lemma put_all_yields_in_order:
  assumes "shard_ok sh"
    and "\<forall>kv\<in>set kvs. length (fst kv) \<le> max_key_size
                       \<and> entry_size (snd kv) \<le> store_block_size (store sh)"
    and "length (blocks (store sh)) + length kvs \<le> 2 ^ 28"
  shows "\<exists>sh'. put_all kvs sh = (None, sh')
           \<and> (\<forall>K. \<exists>old. Shard_get K sh = Inr old
                  \<and> Shard_get K sh' = Inr (old @ map snd (filter (\<lambda>kv. fst kv = K) kvs)))
           \<and> (\<forall>K l. table sh' K = Some l \<longrightarrow>
                  Shard_get K sh'
                  = Inr (live (committed_entries (store sh') (block_id_list l)) @ tail_values l))"
proof -
  from put_all_ok [OF assms] obtain sh' where
    r: "put_all kvs sh = (None, sh')" "shard_ok sh'"
    "\<forall>K. values_of K sh' = values_of K sh @ map snd (filter (\<lambda>kv. fst kv = K) kvs)"
    by blast
  have "\<exists>old. Shard_get K sh = Inr old
          \<and> Shard_get K sh' = Inr (old @ map snd (filter (\<lambda>kv. fst kv = K) kvs))" for K
    using Shard_get_ok [OF assms(1), of K] Shard_get_ok [OF r(2), of K] r(3) by simp
  moreover have "Shard_get K sh'
      = Inr (live (committed_entries (store sh') (block_id_list l)) @ tail_values l)"
    if "table sh' K = Some l" for K l
  proof -
    from r(2) that have "list_ok l (store sh')" by (simp add: shard_ok_def)
    from iterate_committed_then_tail [OF this] that show ?thesis
      by (simp add: Shard_get_def)
  qed
  ultimately show ?thesis using r(1) by blast
qed

lemma put_all_yields_in_order_example:
  "\<exists>sh'. put_all [([107], [1, 2, 3]), ([107], [4, 5, 6]), ([120], [9]),
                   ([107], [7, 8, 9, 10, 11, 12, 13])]
            \<lparr>table = Map.empty, store = small_store\<rparr> = (None, sh')
         \<and> Shard_get [107] sh' = Inr [[1, 2, 3], [4, 5, 6], [7, 8, 9, 10, 11, 12, 13]]
         \<and> Shard_get [120] sh' = Inr [[9]]
         \<and> Shard_get [99] sh' = Inr []"
proof -
  let ?sh = "\<lparr>table = Map.empty, store = small_store\<rparr>"
  let ?kvs = "[([107], [1, 2, 3]), ([107], [4, 5, 6]), ([120], [9]),
               ([107], [7, 8, 9, 10, 11, 12, 13 :: byte])] :: (bytes \<times> bytes) list"
  have ok: "shard_ok ?sh" by (simp add: shard_ok_def)
  have fits: "\<forall>kv\<in>set ?kvs. length (fst kv) \<le> max_key_size
                       \<and> entry_size (snd kv) \<le> store_block_size (store ?sh)"
    by (simp add: max_key_size_def entry_size_def varint_bytes.simps small_store_def)
  have bound: "length (blocks (store ?sh)) + length ?kvs \<le> 2 ^ 28"
    by (simp add: small_store_def)
  have g: "Shard_get K ?sh = Inr []" for K by (simp add: Shard_get_def)
  from put_all_yields_in_order [OF ok fits bound] obtain sh' where
    r: "put_all ?kvs ?sh = (None, sh')"
    "\<forall>K. \<exists>old. Shard_get K ?sh = Inr old
           \<and> Shard_get K sh' = Inr (old @ map snd (filter (\<lambda>kv. fst kv = K) ?kvs))"
    by blast
  have "Shard_get [107] sh' = Inr [[1, 2, 3], [4, 5, 6], [7, 8, 9, 10, 11, 12, 13]]"
    using r(2) [rule_format, of "[107]"] g [of "[107]"] by simp
  moreover have "Shard_get [120] sh' = Inr [[9]]"
    using r(2) [rule_format, of "[120]"] g [of "[120]"] by simp
  moreover have "Shard_get [99] sh' = Inr []"
    using r(2) [rule_format, of "[99]"] g [of "[99]"] by simp
  ultimately show ?thesis using r(1) by blast
qed

text \<open>
  C1 (the code departs from the claim).  Two values of five bytes are put under
  one key of a new shard whose store already holds \<open>2^28\<close> blocks.  The second
  value does not fit into the tail block, which is committed and gets the id
  \<open>2^28\<close>.  The list has no block id yet, so \<open>UintVector::add\<close> compares the id
  itself with \<open>2^28 - 1\<close> and returns false, and \<open>List::Add\<close> does not look at
  the result of \<open>head_.block_ids.Add\<close>.  Both calls succeed, and an iterator for
  the key yields the second value only: the first value is in a block of the
  store that the list does not refer to.
\<close>

theorem put_all_loses_first_value:
  "(case put_all [([107], [1, 2, 3, 4, 5]), ([107], [6, 7, 8, 9, 10])]
           \<lparr>table = Map.empty, store = big_store\<rparr> of
      (e, sh') \<Rightarrow> e = None \<and> Shard_get [107] sh' = Inr [[6, 7, 8, 9, 10]])
   \<and> Inr [[6, 7, 8, 9, 10]] \<noteq> (Inr [[1, 2, 3, 4, 5], [6, 7, 8, 9, 10]] :: error + bytes list)"
  by (simp add: Shard_put_def getUniqueOrCreate_def max_key_size_def list_eval uv_eval
      big_store_simps Shard_get_def iterate_def unpack_loop.simps tail_values_def
      live_values_def)

subsection \<open>C2: the counters and the values of an iteration\<close>

text \<open>
  Where the vector of block ids accepts every id, the counters agree with the
  iteration.  Take a list that was created empty and any history of
  appends, removals (of the first or of all values that satisfy a predicate) and
  flushes on it that ran without a failure, shorter than \<open>2^32\<close> (the counters
  have 32 bits), with a store that holds at most \<open>2^28\<close> blocks at the end.  Then
  \<open>num_values_deleted \<le> num_values_total\<close>, the iteration of the list returns,
  and it yields \<open>num_values_total - num_values_deleted\<close> values.
\<close>

lemma counters_match_iteration:
  assumes "run ops (new_List, s0) = Inr (l, s)"
    and "length (blocks s) \<le> 2 ^ 28"
    and "length ops < 2 ^ 32"
  shows "num_values_deleted (head l) \<le> num_values_total (head l)
         \<and> (\<exists>vs. iterate l s = Inr vs
               \<and> unat (num_values_total (head l)) - unat (num_values_deleted (head l))
                 = length vs)"
proof -
  from run_counted [OF counted_new assms(1,2)]
  have c: "counted (l, s) (length ops)" by simp
  from counted_counters [OF c assms(3)] show ?thesis by simp
qed

lemma counters_match_iteration_example:
  "\<exists>l s. run [Append [1, 2, 3], Append [4, 5, 6], Remove (\<lambda>v. v = [1, 2, 3]) False,
               Append [7, 8, 9, 10, 11, 12, 13], Remove (\<lambda>v. hd v = 4) True, Flush]
            (new_List, small_store) = Inr (l, s)
         \<and> num_values_total (head l) = 3
         \<and> num_values_deleted (head l) = 2
         \<and> length (blocks s) = 2
         \<and> num_values_deleted (head l) \<le> num_values_total (head l)
         \<and> (\<exists>vs. iterate l s = Inr vs
               \<and> unat (num_values_total (head l)) - unat (num_values_deleted (head l))
                 = length vs)"
proof -
  let ?ops = "[Append [1, 2, 3], Append [4, 5, 6], Remove (\<lambda>v. v = [1, 2, 3]) False,
               Append [7, 8, 9, 10, 11, 12, 13], Remove (\<lambda>v. hd v = 4) True, Flush]"
  let ?l = "\<lparr>head = \<lparr>num_values_total = 3, num_values_deleted = 2,
                     block_ids = \<lparr>data = [0, 1, 1, 0, 0, 0, 0, 0, 0, 0, 0, 0],
                                  offset = 6, size = 12\<rparr>\<rparr>,
             block = None\<rparr>"
  let ?s = "\<lparr>store_block_size = 8,
             blocks = [\<lparr>block_size = 8, entries = [([1, 2, 3], True), ([4, 5, 6], True)]\<rparr>,
                       \<lparr>block_size = 8,
                        entries = [([7, 8, 9, 10, 11, 12, 13], False)]\<rparr>]\<rparr>"
  have r: "run ?ops (new_List, small_store) = Inr (?l, ?s)"
    by (simp add: list_eval uv_eval small_store_def List_mark_def mark_blocks.simps
        mark_entries.simps unpack_loop.simps Store_read_def Store_replace_def add_deleted_def)
  have b: "length (blocks ?s) \<le> 2 ^ 28" by simp
  have n: "length ?ops < 2 ^ 32" by simp
  from counters_match_iteration [OF r b n] r show ?thesis by simp
qed

text \<open>
  C2 (the code departs from the claim).  Two values of five bytes are appended
  to a new list whose store already holds \<open>2^28\<close> blocks.  The block of the first
  value is committed with the id \<open>2^28\<close>.  The list has no block id yet, so
  \<open>UintVector::add\<close> compares the id itself with \<open>2^28 - 1\<close> and returns false;
  \<open>List::Add\<close> does not look at the result of \<open>head_.block_ids.Add\<close> and
  increments \<open>num_values_total\<close> all the same.  In the state reached,
  \<open>num_values_total\<close> is 2 and \<open>num_values_deleted\<close> is 0, and an iteration
  yields one value.
\<close>

theorem counters_exceed_iteration:
  "(case run [Append [1, 2, 3, 4, 5], Append [6, 7, 8, 9, 10]] (new_List, big_store) of
      Inl e \<Rightarrow> False
    | Inr (l, s) \<Rightarrow>
        num_values_total (head l) = 2 \<and> num_values_deleted (head l) = 0
        \<and> iterate l s = Inr [[6, 7, 8, 9, 10]])
   \<and> unat (2 :: u32) - unat (0 :: u32) \<noteq> length [[6, 7, 8, 9, 10 :: byte]]"
  by (simp add: list_eval uv_eval big_store_simps iterate_def unpack_loop.simps
      tail_values_def live_values_def)

lemma add_all_grows:
  "add_all vs l s = (e, l', s') \<Longrightarrow> length (blocks s') \<le> length (blocks s) + length vs"
proof (induction vs arbitrary: l s)
  case Nil
  then show ?case by simp
next
  case (Cons v vs)
  obtain e1 l1 s1 where a: "List_Add v l s = (e1, l1, s1)"
    by (cases "List_Add v l s") auto
  note g = List_Add_grows [OF a]
  show ?case
  proof (cases e1)
    case None
    with Cons.prems a have "add_all vs l1 s1 = (e, l', s')" by simp
    from Cons.IH [OF this] g show ?thesis by simp
  next
    case (Some x)
    with Cons.prems a have "s' = s1" by simp
    with g show ?thesis by simp
  qed
qed

lemma mark_entries_marked:
  assumes "mark_entries sel a False es = (es', fnd, m)"
  shows "m = (if a then filter sel (live es) else take 1 (filter sel (live es)))"
    and "live es' = (if a then filter (\<lambda>v. \<not> sel v) (live es)
                     else case m of [] \<Rightarrow> live es | v # vs \<Rightarrow> remove1 v (live es))"
    and "length m \<le> length es"
proof -
  show m: "m = (if a then filter sel (live es) else take 1 (filter sel (live es)))"
  proof (cases a)
    case True
    with assms show ?thesis by (simp add: mark_entries_all)
  next
    case False
    with assms mark_entries_first [of sel es es' fnd m] show ?thesis by simp
  qed
  show "live es' = (if a then filter (\<lambda>v. \<not> sel v) (live es)
                     else case m of [] \<Rightarrow> live es | v # vs \<Rightarrow> remove1 v (live es))"
  proof (cases a)
    case True
    with assms have "es' = map (\<lambda>e. (fst e, snd e \<or> sel (fst e))) es"
      by (simp add: mark_entries_all)
    with True show ?thesis by (simp add: live_mark_all)
  next
    case False
    with assms mark_entries_first [of sel es es' fnd m] show ?thesis by simp
  qed
  have "length (filter sel (live es)) \<le> length (live es)" by simp
  also have "\<dots> \<le> length es" using length_live [of es] by simp
  finally have "length (filter sel (live es)) \<le> length es" .
  with m show "length m \<le> length es" by (simp split: if_splits)
qed

subsection \<open>C8: replacement tombstones and appends\<close>

text \<open>
  Where the vector of block ids accepts every id, a replacement tombstones and
  appends.  Let the key hold a well-formed list with the entries
  \<open>old\<close> (the entries of its committed blocks, in the order of the block ids,
  followed by those of the tail block), let the new value of every value of the
  list fit an empty block,
  and let the store have room for one block per entry within \<open>2^28\<close> blocks.  Then
  \<open>replace\<close> returns the number of values it selected (those for which the
  function returns a non-empty value: all of them, or the first only), and
  afterwards the entries of the list are \<open>es' @ new\<close> where \<open>es'\<close> has the values of
  \<open>old\<close> at their positions, with the tombstones of \<open>old\<close> and those of the selected
  values, and \<open>new\<close> are the new values, not tombstoned, in the order of the
  selected ones.  An iterator yields the values that were not selected followed
  by the new values.
\<close>

lemma replace_tombstones_and_appends:
  assumes tb: "table sh key = Some l" and ok: "list_ok l (store sh)"
    and fits: "\<forall>v\<in>set (live (list_entries l (store sh))).
                 entry_size (f v) \<le> store_block_size (store sh)"
    and bound: "length (blocks (store sh)) + length (list_entries l (store sh)) \<le> 2 ^ 28"
  shows "\<exists>sh' l' es' marked.
           Shard_replace key f a sh = Inr (length marked, sh')
           \<and> table sh' key = Some l'
           \<and> list_entries l' (store sh') = es' @ map (\<lambda>v. (f v, False)) marked
           \<and> map fst es' = map fst (list_entries l (store sh))
           \<and> (\<forall>i<length es'. snd (list_entries l (store sh) ! i) \<longrightarrow> snd (es' ! i))
           \<and> marked = (if a then filter (\<lambda>v. f v \<noteq> []) (live (list_entries l (store sh)))
                       else take 1 (filter (\<lambda>v. f v \<noteq> []) (live (list_entries l (store sh)))))
           \<and> live es' = (if a then filter (\<lambda>v. f v = []) (live (list_entries l (store sh)))
                         else case marked of [] \<Rightarrow> live (list_entries l (store sh))
                              | v # vs \<Rightarrow> remove1 v (live (list_entries l (store sh))))
           \<and> Shard_get key sh' = Inr (live es' @ map f marked)"
proof -
  let ?es = "list_entries l (store sh)"
  obtain es' fnd m where me: "mark_entries (\<lambda>v. f v \<noteq> []) a False ?es = (es', fnd, m)"
    by (cases "mark_entries (\<lambda>v. f v \<noteq> []) a False ?es") auto
  note M = mark_entries_marked [OF me]
  from mark_entries_tombs [OF me] have
    T: "map fst es' = map fst ?es" "\<forall>i<length ?es. snd (?es ! i) \<longrightarrow> snd (es' ! i)"
    by simp_all
  from T(1) have len: "length es' = length ?es" by (metis length_map)
  from List_mark_ok [OF ok me] obtain l1 s1 where
    m1: "List_mark (\<lambda>v. f v \<noteq> []) a l (store sh) = Inr (m, l1, s1)"
    "list_ok l1 s1" "list_entries l1 s1 = es'"
    "length (blocks s1) = length (blocks (store sh))"
    "store_block_size s1 = store_block_size (store sh)"
    by blast
  obtain e2 l2 s2 where a2: "add_all (map f m) l1 s1 = (e2, l2, s2)"
    by (cases "add_all (map f m) l1 s1") auto
  from add_all_grows [OF a2] m1(4) M(3) bound
  have b2: "length (blocks s2) \<le> 2 ^ 28" by simp
  have f2: "e2 = None \<or> (\<forall>v\<in>set (map f m). entry_size v \<le> store_block_size s1)"
  proof -
    have "set m \<subseteq> set (live ?es)"
      using M(1) by (auto dest: in_set_takeD split: if_splits)
    with fits m1(5) show ?thesis by auto
  qed
  from add_all_ok [OF m1(2) a2 b2 f2] have e2: "e2 = None" by simp
  define sh' where "sh' = \<lparr>table = (table sh)(key \<mapsto> l2), store = s2\<rparr>"
  have res: "Shard_replace key f a sh = Inr (length m, sh')"
    using tb m1(1) a2 e2 by (simp add: Shard_replace_def sh'_def)
  have b': "length (blocks (store sh')) \<le> 2 ^ 28" using b2 by (simp add: sh'_def)
  from Shard_replace_ok [OF tb ok res b' me] obtain l' where
    R: "table sh' key = Some l'"
    "list_entries l' (store sh') = es' @ map (\<lambda>v. (f v, False)) m"
    "Shard_get key sh' = Inr (live es' @ map f m)"
    by blast
  from res R T M(1,2) len show ?thesis
    by (intro exI [of _ sh'] exI [of _ l'] exI [of _ es'] exI [of _ m]) simp
qed

lemma replace_tombstones_and_appends_example:
  "\<exists>sh'. Shard_replace [107] (\<lambda>v. v @ v @ v) True
            \<lparr>table = [[107] \<mapsto> two_values], store = small_store\<rparr> = Inr (2, sh')
         \<and> Shard_get [107] sh' = Inr [[1, 1, 1], [2, 2, 2]]"
proof -
  let ?sh = "\<lparr>table = [[107] \<mapsto> two_values], store = small_store\<rparr>"
  let ?f = "\<lambda>v :: bytes. v @ v @ v"
  have "list_inv two_values small_store []"
    by (simp add: list_inv_def two_values_def uv_holds_new)
  from list_inv_ids [OF this] have
    ok: "list_ok two_values (store ?sh)"
    and es: "list_entries two_values (store ?sh) = [([1], False), ([2], False)]"
    by (simp_all add: all_entries_def committed_entries_def tail_entries_def two_values_def)
  have tb: "table ?sh [107] = Some two_values" by simp
  have lv: "live (list_entries two_values (store ?sh)) = [[1], [2]]"
    using es by (simp add: live_def)
  have fits: "\<forall>v\<in>set (live (list_entries two_values (store ?sh))).
                 entry_size (?f v) \<le> store_block_size (store ?sh)"
    using lv by (simp add: entry_size_def varint_bytes.simps small_store_def)
  have bound: "length (blocks (store ?sh)) + length (list_entries two_values (store ?sh))
                 \<le> 2 ^ 28"
    using es by (simp add: small_store_def)
  from replace_tombstones_and_appends [OF tb ok fits bound, of True]
  obtain sh' es' marked where
    r: "Shard_replace [107] ?f True ?sh = Inr (length marked, sh')"
    "marked = filter (\<lambda>v. ?f v \<noteq> []) (live (list_entries two_values (store ?sh)))"
    "live es' = filter (\<lambda>v. ?f v = []) (live (list_entries two_values (store ?sh)))"
    "Shard_get [107] sh' = Inr (live es' @ map ?f marked)"
    by auto
  from r(2) lv have m: "marked = [[1], [2]]" by simp
  from r(3) lv have l: "live es' = []" by simp
  from r(1,4) show ?thesis by (simp add: m l)
qed

text \<open>
  C8 (the code departs from the claim).  The store already holds \<open>2^28\<close> blocks.
  The key holds the values \<open>[1]\<close> and \<open>[2]\<close> in its tail block and has no block
  id; every value is replaced by three copies of itself.  Both values are
  tombstoned and the new value \<open>[1, 1, 1]\<close> is added to the tail block.  The new
  value \<open>[2, 2, 2]\<close> does not fit: the tail block is committed and gets the id
  \<open>2^28\<close>, \<open>UintVector::add\<close> compares the id itself with \<open>2^28 - 1\<close> and returns
  false, and \<open>List::Add\<close> does not look at the result of
  \<open>head_.block_ids.Add\<close>.  The call returns 2, and an iterator yields
  \<open>[2, 2, 2]\<close> only: the new value \<open>[1, 1, 1]\<close> is not at the end of the iteration
  order, it is not in it.
\<close>

theorem replace_loses_new_value:
  "(case Shard_replace [107] (\<lambda>v. v @ v @ v) True
           \<lparr>table = [[107] \<mapsto> two_values], store = big_store\<rparr> of
      Inl e \<Rightarrow> False
    | Inr (n, sh') \<Rightarrow> n = 2 \<and> Shard_get [107] sh' = Inr [[2, 2, 2]])
   \<and> [1, 1, 1] \<notin> set [[2, 2, 2 :: byte]]"
  by (simp add: Shard_replace_def two_values_def List_mark_def mark_blocks.simps
      add_deleted_def list_eval uv_eval big_store_simps Shard_get_def iterate_def
      unpack_loop.simps tail_values_def live_values_def)

subsection \<open>C9: the keys file that close writes\<close>

text \<open>
  C9.  Let \<open>close\<close> complete on a table with a path, whose keys are distinct (it
  is a map) and fewer than \<open>2^32\<close> (the count has 32 bits).  Then the keys file
  holds a count and that many records, and nothing else; the records are those
  of the keys whose list could be locked and is not empty (\<open>List::empty()\<close>), in
  the order of the walk.  Opening that file gives a table with exactly these
  keys: a key whose list is empty, or was locked, does not exist after the reopen.
\<close>

theorem close_writes_nonempty_unlocked_lists:
  fixes chead :: "'l \<Rightarrow> 'h" and list_of_head :: "'h \<Rightarrow> 'l"
  assumes res: "Table_close is_empty flush chead budget t fs st = (None, t', fs', st')"
    and path: "table_path t \<noteq> []"
    and len: "length (table_map t) < 2 ^ 32"
    and dist: "distinct (map fst (table_map t))"
  shows "\<exists>recs t2.
           fs' (table_path t) = Some (Count (length recs) # records_of recs)
           \<and> map fst recs
             = map fst (filter (\<lambda>e. snd (snd e) = Unlocked \<and> \<not> is_empty (fst (snd e)))
                          (table_map t))
           \<and> Table_open list_of_head (table_path t) fs' = Inr t2
           \<and> fst ` set (table_map t2)
             = {k. \<exists>l. (k, l, Unlocked) \<in> set (table_map t) \<and> \<not> is_empty l}
           \<and> (\<forall>k l lk. (k, l, lk) \<in> set (table_map t) \<and> (is_empty l \<or> lk \<noteq> Unlocked)
                  \<longrightarrow> k \<notin> fst ` set (table_map t2))"
proof -
  from Table_close_done [OF res path len] obtain recs where
    r: "fs' (table_path t) = Some (Count (length recs) # records_of recs)"
    "map fst recs = written_keys is_empty (table_map t)"
    by blast
  from Table_open_records
    [of fs' "table_path t" recs list_of_head, OF r(1)]
  obtain t2 where
    o: "Table_open list_of_head (table_path t) fs' = Inr t2"
    "fst ` set (table_map t2) = fst ` set recs"
    by blast
  have keys: "fst ` set recs = set (written_keys is_empty (table_map t))"
    using arg_cong [OF r(2), of set] by simp
  have k1: "fst ` set (table_map t2)
            = {k. \<exists>l. (k, l, Unlocked) \<in> set (table_map t) \<and> \<not> is_empty l}"
    unfolding o(2) keys by (rule set_eqI) (simp add: written_keys_iff)
  have k2: "\<forall>k l lk. (k, l, lk) \<in> set (table_map t) \<and> (is_empty l \<or> lk \<noteq> Unlocked)
                  \<longrightarrow> k \<notin> fst ` set (table_map t2)"
  proof (intro allI impI)
    fix k l lk
    assume a: "(k, l, lk) \<in> set (table_map t) \<and> (is_empty l \<or> lk \<noteq> Unlocked)"
    then have "lk \<noteq> Unlocked \<or> is_empty l" by blast
    from written_keys_unlocked [of "table_map t" k l lk is_empty, OF dist conjunct1 [OF a] this]
    show "k \<notin> fst ` set (table_map t2)" unfolding o(2) keys .
  qed
  note r2 = r(2) [unfolded written_keys_def]
  from r(1) r2 o(1) k1 k2 show ?thesis by blast
qed

theorem close_writes_nonempty_unlocked_lists_witness:
  "\<exists>t' fs' st' h t2.
     Table_close List_empty List_Flush head None three_keys
       [''p.keys'' \<mapsto> old_keys_file] small_store = (None, t', fs', st')
     \<and> fs' ''p.keys'' = Some [Count 1, Record [1] h]
     \<and> Table_open (\<lambda>h. \<lparr>head = h, block = None\<rparr>) ''p.keys'' fs' = Inr t2
     \<and> fst ` set (table_map t2) = {[1]}"
proof -
  let ?fs = "[''p.keys'' \<mapsto> old_keys_file]"
  have "fst (Table_close List_empty List_Flush head None three_keys ?fs small_store) = None"
    by (simp add: Table_close_def three_keys_def System_write_def writeEntryToFile_def
        tryLockUnique_def List_empty_def two_values_def new_List_def List_Flush_def
        commit_block_def Store_append_def block_ids_Add_def uv_eval small_store_def)
  then obtain t' fs' st' where
    res: "Table_close List_empty List_Flush head None three_keys ?fs small_store
          = (None, t', fs', st')"
    by (metis prod.collapse)
  have path: "table_path three_keys \<noteq> []" by (simp add: three_keys_def)
  have len: "length (table_map three_keys) < 2 ^ 32" by (simp add: three_keys_def)
  have dist: "distinct (map fst (table_map three_keys))" by (simp add: three_keys_def)
  from close_writes_nonempty_unlocked_lists
    [OF res path len dist, of "\<lambda>h. \<lparr>head = h, block = None\<rparr>"]
  obtain recs t2 where
    r: "fs' (table_path three_keys) = Some (Count (length recs) # records_of recs)"
    "map fst recs
     = map fst (filter (\<lambda>e. snd (snd e) = Unlocked \<and> \<not> List_empty (fst (snd e)))
                  (table_map three_keys))"
    "Table_open (\<lambda>h. \<lparr>head = h, block = None\<rparr>) (table_path three_keys) fs' = Inr t2"
    "fst ` set (table_map t2)
     = {k. \<exists>l. (k, l, Unlocked) \<in> set (table_map three_keys) \<and> \<not> List_empty l}"
    by (elim exE conjE) (rule that)
  have ne: "\<not> List_empty two_values" by (simp add: List_empty_def two_values_def)
  have em: "List_empty new_List" by (simp add: List_empty_def new_List_def)
  from r(2) have "map fst recs = [[1]]" by (simp add: three_keys_def ne em)
  then obtain h where recs: "recs = [([1], h)]" by (cases recs) auto
  have "{k. \<exists>l. (k, l, Unlocked) \<in> set (table_map three_keys) \<and> \<not> List_empty l} = {[1]}"
    using ne em by (auto simp: three_keys_def)
  with r(4) have keys: "fst ` set (table_map t2) = {[1]}" by simp
  have p: "table_path three_keys = ''p.keys''" by (simp add: three_keys_def)
  from r(1) recs have f: "fs' ''p.keys'' = Some [Count 1, Record [1] h]"
    by (simp add: p records_of_def)
  from r(3) have o: "Table_open (\<lambda>h. \<lparr>head = h, block = None\<rparr>) ''p.keys'' fs' = Inr t2"
    by (simp add: p)
  from res f o keys show ?thesis by blast
qed

subsection \<open>C5: locked lists and failed writes during close\<close>




end
